theory Spec2Isabelle
  imports Main
begin

section \<open>The chain manager and its two revisions\<close>

text \<open>
  The repository holds the module \<^verbatim>\<open>service/workflow-chain\<close> twice: as
  \<^verbatim>\<open>service/workflow-chain.ts\<close>, and in an annotated later revision of the same file. Both
  define \<^verbatim>\<open>executeCustomWorkflow\<close>, the decoder of the event stream, with the same code, and
  the class \<^verbatim>\<open>WorkflowChainManager\<close> with the same \<^verbatim>\<open>createChain\<close>, accessors and
  \<^verbatim>\<open>resetChain\<close>. They differ inside \<^verbatim>\<open>executeNextStep\<close>:
  \<^item> the later revision maps the previous outputs into the named slots
    \<^verbatim>\<open>competitor_input\<close> and \<^verbatim>\<open>current_de_op_input\<close>, and lets \<^verbatim>\<open>second_input\<close> fall back to
    \<^verbatim>\<open>current_de_op_output\<close>; the earlier one knows \<^verbatim>\<open>second_input\<close> with \<^verbatim>\<open>agent_output\<close>
    only and otherwise merges all previous outputs;
  \<^item> the later revision collects the \<^verbatim>\<open>data.outputs\<close> of the \<^verbatim>\<open>node_finished\<close> events and
    merges them with those of \<^verbatim>\<open>workflow_finished\<close>; the earlier one takes the outputs of
    \<^verbatim>\<open>workflow_finished\<close> alone, and reads \<^verbatim>\<open>eventData.data.error\<close> without a guard;
  \<^item> \<^verbatim>\<open>deleteChain\<close> returns a boolean and \<^verbatim>\<open>getAllChains\<close> exists in the later revision
    only.
  The later revision is the one the specification describes. Both are modelled; where
  they differ the definitions carry the revision in their names.
\<close>

section \<open>JSON values and JavaScript objects\<close>

text \<open>
  The values that \<^verbatim>\<open>JSON.parse\<close> produces and that the \<^verbatim>\<open>Record<string, any>\<close> maps of
  the chain manager hold. Numbers are kept as integers: the code only tests them for
  truthiness. An object literal is an association list read at its first binding.
\<close>

datatype json =
    JNull
  | JBool bool
  | JNum int
  | JStr string
  | JArr "json list"
  | JObj "(string \<times> json) list"

type_synonym jmap = "string \<rightharpoonup> json"

text \<open>JavaScript truthiness of a value, and of a property read that may be \<^verbatim>\<open>undefined\<close>.\<close>

fun truthy :: "json \<Rightarrow> bool" where
  "truthy JNull = False"
| "truthy (JBool b) = b"
| "truthy (JNum n) = (n \<noteq> 0)"
| "truthy (JStr s) = (s \<noteq> [])"
| "truthy (JArr xs) = True"
| "truthy (JObj kvs) = True"

fun truthyP :: "json option \<Rightarrow> bool" where
  "truthyP None = False"
| "truthyP (Some v) = truthy v"

fun isString :: "json \<Rightarrow> bool" where
  "isString (JStr s) = True"
| "isString v = False"

text \<open>
  \<^verbatim>\<open>v.k\<close> for a value \<^verbatim>\<open>v\<close> that is neither \<^verbatim>\<open>null\<close> nor \<^verbatim>\<open>undefined\<close>, at one of the keys
  the code reads (\<^verbatim>\<open>event\<close>, \<^verbatim>\<open>data\<close>, \<^verbatim>\<open>outputs\<close>, \<^verbatim>\<open>error\<close>, \<^verbatim>\<open>message\<close>,
  \<^verbatim>\<open>workflow_run_id\<close>): only an object has such a property.
\<close>

fun getProp :: "string \<Rightarrow> json \<Rightarrow> json option" where
  "getProp k (JObj kvs) = map_of kvs k"
| "getProp k v = None"

text \<open>\<^verbatim>\<open>x && x.k\<close>: the property when \<^verbatim>\<open>x\<close> is truthy, a falsy value otherwise.\<close>

definition guardedProp :: "string \<Rightarrow> json option \<Rightarrow> json option" where
  "guardedProp k x = (case x of None \<Rightarrow> None | Some v \<Rightarrow> if truthy v then getProp k v else None)"

text \<open>Decimal rendering of an index, as a template literal renders a number.\<close>

function show_nat :: "nat \<Rightarrow> string" where
  "show_nat n = (if n < 10 then [''0123456789'' ! n]
                 else show_nat (n div 10) @ [''0123456789'' ! (n mod 10)])"
  by pat_completeness auto
termination
  by (relation "measure (\<lambda>n. n)") auto

declare show_nat.simps [simp del]

text \<open>
  The own enumerable properties that an object spread \<^verbatim>\<open>{...v}\<close> copies: the bindings of an
  object, the indexed elements of an array, the indexed characters of a string, nothing
  for the other values.
\<close>

fun spread :: "json \<Rightarrow> jmap" where
  "spread (JObj kvs) = map_of kvs"
| "spread (JArr xs) = map_of (zip (map show_nat [0..<length xs]) xs)"
| "spread (JStr s) = map_of (zip (map show_nat [0..<length s]) (map (\<lambda>c. JStr [c]) s))"
| "spread v = Map.empty"

section \<open>Strings\<close>

definition newline :: char where
  "newline = CHR 0x0A"

definition is_space :: "char \<Rightarrow> bool" where
  "is_space c = (c \<in> set [CHR '' '', CHR 0x09, CHR 0x0A, CHR 0x0B, CHR 0x0C, CHR 0x0D])"

text \<open>
  \<^verbatim>\<open>String.prototype.trim\<close> on the ASCII white space; the other Unicode white space,
  several bytes each in UTF-8, is not trimmed here.
\<close>

definition trim :: "string \<Rightarrow> string" where
  "trim s = rev (dropWhile is_space (rev (dropWhile is_space s)))"

definition startsWith :: "string \<Rightarrow> string \<Rightarrow> bool" where
  "startsWith p s = (take (length p) s = p)"

text \<open>
  \<^verbatim>\<open>s.split('\n')\<close>: the segments between line feeds, one more than there are line feeds,
  so never the empty list.
\<close>

fun split_nl :: "string \<Rightarrow> string list" where
  "split_nl [] = [] # []"
| "split_nl (c # cs) =
     (if c = newline then [] # split_nl cs
      else (case split_nl cs of l # ls \<Rightarrow> (c # l) # ls | [] \<Rightarrow> [c] # []))"

section \<open>The event stream decoder: \<^verbatim>\<open>executeCustomWorkflow\<close>\<close>

text \<open>
  What the runtime can throw or reject with. The code throws plain \<^verbatim>\<open>Error\<close> objects;
  the constructors keep apart the places that build them.
\<close>

datatype error =
    ChainNotFound string            \<comment> \<open>\<^verbatim>\<open>Chain ${chainId} not found\<close>\<close>
  | NoMoreSteps string              \<comment> \<open>\<^verbatim>\<open>No more steps in chain ${chainId}\<close>\<close>
  | FetchRejected string            \<comment> \<open>\<^verbatim>\<open>fetch\<close> itself rejects\<close>
  | WorkflowApiError nat string     \<comment> \<open>\<^verbatim>\<open>Workflow API error: ${status} ${statusText}\<close>\<close>
  | NoResponseBody                  \<comment> \<open>\<^verbatim>\<open>No response body received from workflow API\<close>\<close>
  | ReadRejected string             \<comment> \<open>\<^verbatim>\<open>reader.read()\<close> rejects\<close>
  | UpstreamError json              \<comment> \<open>\<^verbatim>\<open>new Error(v)\<close> for a value \<^verbatim>\<open>v\<close> of the stream\<close>
  | SyntaxError                     \<comment> \<open>\<^verbatim>\<open>JSON.parse\<close> on malformed text\<close>
  | TypeError string                \<comment> \<open>a property read or call on the wrong kind of value\<close>

text \<open>
  The response of the remote service to one POST. The body is the finite list of chunks
  the reader delivers, after \<^verbatim>\<open>TextDecoder.decode(value, {stream: true})\<close>, followed by
  how the reading ends: \<^verbatim>\<open>done\<close>, or a rejected \<^verbatim>\<open>read()\<close>.
\<close>

datatype stream_end = Done | ReadFails string

datatype response =
    FetchFails string
  | NotOk nat string
  | NoBody
  | Body "string list" stream_end

text \<open>
  The four callbacks, as transformers of the state their closures share. A callback
  returns the state it leaves and, when it throws, what it throws.
\<close>

record 's callbacks =
  onWorkflowStarted :: "json \<Rightarrow> 's \<Rightarrow> error option \<times> 's"
  onNodeStarted :: "json \<Rightarrow> 's \<Rightarrow> error option \<times> 's"
  onNodeFinished :: "json \<Rightarrow> 's \<Rightarrow> error option \<times> 's"
  onWorkflowFinished :: "json \<Rightarrow> 's \<Rightarrow> error option \<times> 's"

text \<open>How one iteration of the \<^verbatim>\<open>for\<close> loop over the lines ends.\<close>

datatype flow = Next | Return

text \<open>
  A callback was called inside the \<^verbatim>\<open>try\<close> block, to be followed by \<^verbatim>\<open>break\<close> (\<open>Next\<close>) or
  by \<^verbatim>\<open>return\<close>: what it throws takes the place of either.
\<close>

definition called :: "flow \<Rightarrow> error option \<times> 's \<Rightarrow> (error + flow) \<times> 's" where
  "called f r = (case fst r of None \<Rightarrow> (Inr f, snd r) | Some e \<Rightarrow> (Inl e, snd r))"

text \<open>
  The body of the inner \<^verbatim>\<open>try\<close> block for one line that passed the prefix test: an
  exception raised in it is \<open>Inl\<close>. \<^verbatim>\<open>JSON.parse\<close> is the parameter \<open>parse\<close>, \<open>None\<close>
  where it throws.
\<close>

definition tryBody ::
  "(string \<Rightarrow> json option) \<Rightarrow> 's callbacks \<Rightarrow> string \<Rightarrow> 's \<Rightarrow> (error + flow) \<times> 's" where
  "tryBody parse cb line s =
     (let jsonString = trim (drop 6 line) in
      if jsonString = [] then (Inr Next, s)
      else case parse jsonString of
        None \<Rightarrow> (Inl SyntaxError, s)
      | Some data \<Rightarrow>
          if data = JNull then (Inl (TypeError ''Cannot read properties of null''), s)
          else case getProp ''event'' data of
            Some (JStr ev) \<Rightarrow>
              if ev = ''workflow_started'' then
                called Next (onWorkflowStarted cb
                  (JObj (case getProp ''workflow_run_id'' data of
                           None \<Rightarrow> [] | Some r \<Rightarrow> [(''workflow_run_id'', r)])) s)
              else if ev = ''node_started'' then called Next (onNodeStarted cb data s)
              else if ev = ''node_finished'' then called Next (onNodeFinished cb data s)
              else if ev = ''workflow_finished'' then called Return (onWorkflowFinished cb data s)
              else if ev = ''error'' then
                (Inl (UpstreamError
                  (if truthyP (getProp ''message'' data) then the (getProp ''message'' data)
                   else JStr ''Workflow execution failed'')), s)
              else (Inr Next, s)
          | _ \<Rightarrow> (Inr Next, s))"

text \<open>
  One iteration of the \<^verbatim>\<open>for\<close> loop: the prefix test, then the \<^verbatim>\<open>try\<close> block whose
  \<^verbatim>\<open>catch\<close> clause logs a warning for whatever was thrown and goes on to the next line.
\<close>

definition processLine ::
  "(string \<Rightarrow> json option) \<Rightarrow> 's callbacks \<Rightarrow> string \<Rightarrow> 's \<Rightarrow> flow \<times> 's" where
  "processLine parse cb line s =
     (if trim line = [] \<or> \<not> startsWith ''data: '' line then (Next, s)
      else case tryBody parse cb line s of
        (Inl parseError, s') \<Rightarrow> (Next, s')
      | (Inr f, s') \<Rightarrow> (f, s'))"

fun processLines ::
  "(string \<Rightarrow> json option) \<Rightarrow> 's callbacks \<Rightarrow> string list \<Rightarrow> 's \<Rightarrow> flow \<times> 's" where
  "processLines parse cb [] s = (Next, s)"
| "processLines parse cb (line # lines) s =
     (case processLine parse cb line s of
        (Return, s') \<Rightarrow> (Return, s')
      | (Next, s') \<Rightarrow> processLines parse cb lines s')"

text \<open>
  The \<^verbatim>\<open>while (true)\<close> loop over the reads. It ends by \<^verbatim>\<open>break\<close> when the reader is done
  (\<open>Inr Next\<close>), by \<^verbatim>\<open>return\<close> after the \<^verbatim>\<open>onWorkflowFinished\<close> of a \<^verbatim>\<open>workflow_finished\<close>
  line has returned (\<open>Inr Return\<close>), or by the exception of a rejected read; the state
  reached before the exception stays with the closures.
\<close>

fun readLoop ::
  "(string \<Rightarrow> json option) \<Rightarrow> 's callbacks \<Rightarrow> string \<Rightarrow> string list \<Rightarrow> stream_end \<Rightarrow> 's
     \<Rightarrow> (error + flow) \<times> 's" where
  "readLoop parse cb buffer [] Done s = (Inr Next, s)"
| "readLoop parse cb buffer [] (ReadFails m) s = (Inl (ReadRejected m), s)"
| "readLoop parse cb buffer (chunk # chunks) e s =
     (let lines = split_nl (buffer @ chunk) in
      case processLines parse cb (butlast lines) s of
        (Return, s') \<Rightarrow> (Inr Return, s')
      | (Next, s') \<Rightarrow> readLoop parse cb (last lines) chunks e s')"

definition executeCustomWorkflow ::
  "(string \<Rightarrow> json option) \<Rightarrow> 's callbacks \<Rightarrow> response \<Rightarrow> 's \<Rightarrow> (error + flow) \<times> 's" where
  "executeCustomWorkflow parse cb resp s =
     (case resp of
        FetchFails m \<Rightarrow> (Inl (FetchRejected m), s)
      | NotOk st txt \<Rightarrow> (Inl (WorkflowApiError st txt), s)
      | NoBody \<Rightarrow> (Inl NoResponseBody, s)
      | Body chunks e \<Rightarrow> readLoop parse cb [] chunks e s)"

text \<open>
  Callbacks that only record which of them was called, with what, in order. Their
  \<^verbatim>\<open>onWorkflowFinished\<close> returns on the payloads that \<open>returns\<close> holds of and throws on the
  others, after recording the call.
\<close>

datatype call =
    WorkflowStarted json
  | NodeStarted json
  | NodeFinished json
  | WorkflowFinished json

definition recorder :: "(json \<Rightarrow> bool) \<Rightarrow> call list callbacks" where
  "recorder returns = \<lparr>
     onWorkflowStarted = (\<lambda>d tr. (None, tr @ [WorkflowStarted d])),
     onNodeStarted = (\<lambda>d tr. (None, tr @ [NodeStarted d])),
     onNodeFinished = (\<lambda>d tr. (None, tr @ [NodeFinished d])),
     onWorkflowFinished = (\<lambda>d tr.
       (if returns d then None else Some (TypeError ''onWorkflowFinished''),
        tr @ [WorkflowFinished d])) \<rparr>"

text \<open>
  Applying the callbacks to a recorded sequence of calls, in order, for the state they
  leave.
\<close>

fun applyCall :: "'s callbacks \<Rightarrow> call \<Rightarrow> 's \<Rightarrow> error option \<times> 's" where
  "applyCall cb (WorkflowStarted d) s = onWorkflowStarted cb d s"
| "applyCall cb (NodeStarted d) s = onNodeStarted cb d s"
| "applyCall cb (NodeFinished d) s = onNodeFinished cb d s"
| "applyCall cb (WorkflowFinished d) s = onWorkflowFinished cb d s"

definition replay :: "'s callbacks \<Rightarrow> call list \<Rightarrow> 's \<Rightarrow> 's" where
  "replay cb calls s = fold (\<lambda>c s. snd (applyCall cb c s)) calls s"

text \<open>
  What one invocation lets its callbacks observe: how the decoder ends, and the calls
  it made.
\<close>

definition observed ::
  "(json \<Rightarrow> bool) \<Rightarrow> (string \<Rightarrow> json option) \<Rightarrow> response \<Rightarrow> (error + flow) \<times> call list" where
  "observed returns parse resp = executeCustomWorkflow parse (recorder returns) resp []"

text \<open>
  The calls of \<^verbatim>\<open>onWorkflowFinished\<close>, and among them the one that returns, after which
  the decoder returns.
\<close>

fun isFinished :: "call \<Rightarrow> bool" where
  "isFinished (WorkflowFinished d) = True"
| "isFinished c = False"

fun finishes :: "(json \<Rightarrow> bool) \<Rightarrow> call \<Rightarrow> bool" where
  "finishes returns (WorkflowFinished d) = returns d"
| "finishes returns c = False"

text \<open>
  Callbacks that throw exactly where the recorder for \<open>returns\<close> does: only in
  \<^verbatim>\<open>onWorkflowFinished\<close>, on the payloads \<open>returns\<close> does not hold of.
\<close>

definition agrees :: "(json \<Rightarrow> bool) \<Rightarrow> 's callbacks \<Rightarrow> bool" where
  "agrees returns cb =
     ((\<forall>d s. fst (onWorkflowStarted cb d s) = None)
      \<and> (\<forall>d s. fst (onNodeStarted cb d s) = None)
      \<and> (\<forall>d s. fst (onNodeFinished cb d s) = None)
      \<and> (\<forall>d s. (fst (onWorkflowFinished cb d s) = None) = returns d))"

section \<open>Chains and steps\<close>

text \<open>
  Modelled from the spec: the status type of steps and chains, declared in \<^verbatim>\<open>types/app\<close>,
  which is not among the sources. The specification gives the four values, and the
  manager assigns these four string literals.
\<close>

datatype status = Pending | Running | Completed | Failed

text \<open>
  Modelled from the spec: \<^verbatim>\<open>Omit<WorkflowChainStep, 'id' | 'status'>\<close>, the step definitions
  that \<^verbatim>\<open>createChain\<close> takes. \<^verbatim>\<open>WorkflowChainStep\<close> is declared in \<^verbatim>\<open>types/app\<close>, which is not
  among the sources; the fields are those of the data model of the specification (human
  name, target workflow identifier, credential, default-input map, the flag allowing
  human edits, optional user-modification map, optional captured-output map), under the
  names the manager and its callers use.
\<close>

record stepDef =
  name :: string
  workflowId :: string
  apiKey :: string
  inputs :: jmap
  allowUserEdit :: bool
  userModifications :: "jmap option"
  outputs :: "jmap option"

text \<open>
  Modelled from the spec: \<^verbatim>\<open>WorkflowChainStep\<close> (declared in \<^verbatim>\<open>types/app\<close>), the step
  definition extended with the chain-scoped id and the status.
\<close>

record step = stepDef +
  step_id :: string
  step_status :: status

text \<open>
  Modelled from the spec: \<^verbatim>\<open>WorkflowChain\<close> (declared in \<^verbatim>\<open>types/app\<close>): identity, name,
  the ordered steps, the cursor and the aggregate status.
\<close>

record chain =
  chain_id :: string
  chain_name :: string
  steps :: "step list"
  currentStepIndex :: nat
  chain_status :: status

text \<open>
  Modelled from the spec: \<^verbatim>\<open>ChainStepResult\<close> (declared in \<^verbatim>\<open>types/app\<close>): the id of the step
  just executed, its captured outputs, and the success flag.
\<close>

record chainStepResult =
  stepId :: string
  resultOutputs :: jmap
  success :: bool

text \<open>The registry \<^verbatim>\<open>chains: Map<string, WorkflowChain>\<close> of the manager.\<close>

type_synonym manager = "string \<rightharpoonup> chain"

text \<open>
  How the promise that \<^verbatim>\<open>executeNextStep\<close> returns ends: resolved, rejected, or never
  settled.
\<close>

datatype outcome = Resolved chainStepResult | Rejected error | NeverSettles

section \<open>\<^verbatim>\<open>createChain\<close> and the accessors\<close>

definition createChain :: "string \<Rightarrow> string \<Rightarrow> stepDef list \<Rightarrow> manager \<Rightarrow> chain \<times> manager" where
  "createChain cid nm defs m =
     (let chain = \<lparr>
        chain_id = cid,
        chain_name = nm,
        steps = map (\<lambda>(index, d). \<lparr>
                    name = name d, workflowId = workflowId d, apiKey = apiKey d,
                    inputs = inputs d, allowUserEdit = allowUserEdit d,
                    userModifications = userModifications d, outputs = outputs d,
                    step_id = cid @ ''-step-'' @ show_nat index,
                    step_status = Pending \<rparr>)
                  (enumerate 0 defs),
        currentStepIndex = 0,
        chain_status = Pending \<rparr>
      in (chain, m(cid \<mapsto> chain)))"

definition getChain :: "string \<Rightarrow> manager \<Rightarrow> chain option" where
  "getChain cid m = m cid"

definition getCurrentStep :: "string \<Rightarrow> manager \<Rightarrow> step option" where
  "getCurrentStep cid m =
     (case m cid of
        None \<Rightarrow> None
      | Some chain \<Rightarrow>
          if currentStepIndex chain < length (steps chain)
          then Some (steps chain ! currentStepIndex chain) else None)"

definition isChainCompleted :: "string \<Rightarrow> manager \<Rightarrow> bool" where
  "isChainCompleted cid m =
     (case m cid of None \<Rightarrow> False | Some chain \<Rightarrow> chain_status chain = Completed)"

definition hasNextStep :: "string \<Rightarrow> manager \<Rightarrow> bool" where
  "hasNextStep cid m =
     (case m cid of
        None \<Rightarrow> False
      | Some chain \<Rightarrow> currentStepIndex chain < length (steps chain))"

definition resetChain :: "string \<Rightarrow> manager \<Rightarrow> manager" where
  "resetChain cid m =
     (case m cid of
        None \<Rightarrow> m
      | Some chain \<Rightarrow>
          m(cid \<mapsto> chain\<lparr>
            currentStepIndex := 0,
            chain_status := Pending,
            steps := map (\<lambda>s. s\<lparr> step_status := Pending, outputs := None,
                                   userModifications := None \<rparr>) (steps chain) \<rparr>))"

definition deleteChain :: "string \<Rightarrow> manager \<Rightarrow> bool \<times> manager" where
  "deleteChain cid m = (m cid \<noteq> None, m(cid := None))"



section \<open>\<^verbatim>\<open>executeNextStep\<close>: the effective inputs\<close>

datatype revision = Earlier | Later

text \<open>\<^verbatim>\<open>if (userModifications) currentStep.userModifications = userModifications\<close>\<close>

definition applyUserModifications :: "jmap option \<Rightarrow> step \<Rightarrow> step" where
  "applyUserModifications userMods currentStep =
     (case userMods of
        None \<Rightarrow> currentStep
      | Some u \<Rightarrow> currentStep\<lparr> userModifications := Some u \<rparr>)"

text \<open>\<^verbatim>\<open>...(currentStep.userModifications || {})\<close>\<close>

definition orEmpty :: "jmap option \<Rightarrow> jmap" where
  "orEmpty mo = (case mo of None \<Rightarrow> Map.empty | Some m \<Rightarrow> m)"

text \<open>
  Later revision, the branch for a step that declares \<^verbatim>\<open>competitor_input\<close> or
  \<^verbatim>\<open>current_de_op_input\<close>. Each copy is followed by a debug line that calls
  \<^verbatim>\<open>.substring(0, 100)\<close> on the copied value: on a truthy value that is not a string this
  call throws a \<^verbatim>\<open>TypeError\<close>.
\<close>

definition mapNamedSlots :: "step \<Rightarrow> jmap \<Rightarrow> error + jmap" where
  "mapNamedSlots currentStep prevOutputs =
     (let stepInputs = inputs currentStep in
      if inputs currentStep ''competitor_input'' \<noteq> None \<and> truthyP (prevOutputs ''agent_output'')
         \<and> \<not> isString (the (prevOutputs ''agent_output''))
      then Inl (TypeError ''agent_output.substring is not a function'')
      else
        let stepInputs =
              (if inputs currentStep ''competitor_input'' \<noteq> None \<and> truthyP (prevOutputs ''agent_output'')
               then stepInputs(''competitor_input'' \<mapsto> the (prevOutputs ''agent_output''))
               else stepInputs)
        in
        if inputs currentStep ''current_de_op_input'' \<noteq> None
           \<and> truthyP (prevOutputs ''current_de_op_output'')
           \<and> \<not> isString (the (prevOutputs ''current_de_op_output''))
        then Inl (TypeError ''current_de_op_output.substring is not a function'')
        else
          let stepInputs =
                (if inputs currentStep ''current_de_op_input'' \<noteq> None
                    \<and> truthyP (prevOutputs ''current_de_op_output'')
                 then stepInputs(''current_de_op_input'' \<mapsto> the (prevOutputs ''current_de_op_output''))
                 else stepInputs)
          in
          Inr (case userModifications currentStep of
                 None \<Rightarrow> stepInputs
               | Some u \<Rightarrow> stepInputs ++ u))"

text \<open>
  Later revision, the branch for a step that declares the legacy \<^verbatim>\<open>second_input\<close>. Only
  the fallback to \<^verbatim>\<open>current_de_op_output\<close> logs through \<^verbatim>\<open>.substring\<close>.
\<close>

definition mapSecondInput :: "step \<Rightarrow> jmap \<Rightarrow> error + jmap" where
  "mapSecondInput currentStep prevOutputs =
     (let stepInputs = inputs currentStep in
      if truthyP (prevOutputs ''agent_output'') then
        Inr (stepInputs(''second_input'' \<mapsto> the (prevOutputs ''agent_output''))
               ++ orEmpty (userModifications currentStep))
      else if truthyP (prevOutputs ''current_de_op_output'') then
        (if \<not> isString (the (prevOutputs ''current_de_op_output''))
         then Inl (TypeError ''selectedOutput.substring is not a function'')
         else Inr (stepInputs(''second_input'' \<mapsto> the (prevOutputs ''current_de_op_output''))
                     ++ orEmpty (userModifications currentStep)))
      else Inr (stepInputs ++ orEmpty (userModifications currentStep)))"

text \<open>
  Later revision, steps 4 and 5 of \<^verbatim>\<open>executeNextStep\<close>: the inputs sent to the remote
  workflow, for the chain and its current step (the step at the cursor, user
  modifications already applied). \<^verbatim>\<open>executeNextStep\<close> calls it with the cursor inside the
  step list, so that for a cursor above 0 the previous step exists; where it did not,
  reading \<^verbatim>\<open>previousStep.outputs\<close> would throw.

  The slots are tested with \<^verbatim>\<open>currentStep.inputs.hasOwnProperty(...)\<close>, a method that is
  looked up on the defaults themselves: a default input named \<^verbatim>\<open>hasOwnProperty\<close> shadows
  the method of \<^verbatim>\<open>Object.prototype\<close>, and being a JSON value it cannot be called, so the
  first of these calls throws a \<^verbatim>\<open>TypeError\<close>. Without such a default, the call tells
  whether the defaults have the key.
\<close>

definition stepInputsLater :: "chain \<Rightarrow> step \<Rightarrow> error + jmap" where
  "stepInputsLater chain currentStep =
     (let stepInputs = inputs currentStep in
      if currentStepIndex chain > 0 then
        (if \<not> currentStepIndex chain - 1 < length (steps chain)
         then Inl (TypeError ''Cannot read properties of undefined (reading outputs)'')
         else
           let previousStep = steps chain ! (currentStepIndex chain - 1) in
           case outputs previousStep of
             Some prevOutputs \<Rightarrow>
               if inputs currentStep ''hasOwnProperty'' \<noteq> None
               then Inl (TypeError ''currentStep.inputs.hasOwnProperty is not a function'')
               else if inputs currentStep ''competitor_input'' \<noteq> None
                  \<or> inputs currentStep ''current_de_op_input'' \<noteq> None
               then mapNamedSlots currentStep prevOutputs
               else if inputs currentStep ''second_input'' \<noteq> None
               then mapSecondInput currentStep prevOutputs
               else Inr (stepInputs ++ prevOutputs ++ orEmpty (userModifications currentStep))
           | None \<Rightarrow> Inr stepInputs)
      else
        (case userModifications currentStep of
           Some u \<Rightarrow> Inr (stepInputs ++ u)
         | None \<Rightarrow> Inr stepInputs))"

text \<open>
  Earlier revision, the same place (\<^verbatim>\<open>service/workflow-chain.ts\<close>, ``Prepare inputs for
  this step''): \<^verbatim>\<open>agent_output\<close> goes to a declared \<^verbatim>\<open>second_input\<close>, and otherwise all
  previous outputs are merged. The slot is tested with the same
  \<^verbatim>\<open>currentStep.inputs.hasOwnProperty(...)\<close>, which throws on defaults that have a key of
  that name; nothing else here throws when the previous step is in place.
\<close>

definition stepInputsEarlier :: "chain \<Rightarrow> step \<Rightarrow> error + jmap" where
  "stepInputsEarlier chain currentStep =
     (let stepInputs = inputs currentStep in
      if currentStepIndex chain > 0 then
        (if \<not> currentStepIndex chain - 1 < length (steps chain)
         then Inl (TypeError ''Cannot read properties of undefined (reading outputs)'')
         else
           let previousStep = steps chain ! (currentStepIndex chain - 1) in
           case outputs previousStep of
             Some prevOutputs \<Rightarrow>
               if inputs currentStep ''hasOwnProperty'' \<noteq> None
               then Inl (TypeError ''currentStep.inputs.hasOwnProperty is not a function'')
               else if inputs currentStep ''second_input'' \<noteq> None
                  \<and> truthyP (prevOutputs ''agent_output'')
               then Inr (stepInputs(''second_input'' \<mapsto> the (prevOutputs ''agent_output''))
                           ++ orEmpty (userModifications currentStep))
               else Inr (stepInputs ++ prevOutputs ++ orEmpty (userModifications currentStep))
           | None \<Rightarrow> Inr stepInputs)
      else
        (case userModifications currentStep of
           Some u \<Rightarrow> Inr (stepInputs ++ u)
         | None \<Rightarrow> Inr stepInputs))"

definition stepInputsFor :: "revision \<Rightarrow> chain \<Rightarrow> step \<Rightarrow> error + jmap" where
  "stepInputsFor rv chain currentStep =
     (case rv of
        Earlier \<Rightarrow> stepInputsEarlier chain currentStep
      | Later \<Rightarrow> stepInputsLater chain currentStep)"

section \<open>\<^verbatim>\<open>executeNextStep\<close>: running the step\<close>

text \<open>
  What the closures of the promise executor share: the chain (with \<^verbatim>\<open>currentStep\<close> the
  step at the index captured on entry), \<^verbatim>\<open>nodeOutputs\<close> (later revision), and whether
  \<^verbatim>\<open>resolve\<close> or \<^verbatim>\<open>reject\<close> has been called. A promise settles once: later calls change
  nothing.
\<close>

record run =
  run_chain :: chain
  nodeOutputs :: jmap
  settled :: "outcome option"

definition settle :: "outcome \<Rightarrow> run \<Rightarrow> run" where
  "settle out r = (case settled r of None \<Rightarrow> r\<lparr> settled := Some out \<rparr> | Some x \<Rightarrow> r)"

text \<open>\<^verbatim>\<open>currentStep.status = st; chain.status = st\<close>\<close>

definition setStatus :: "nat \<Rightarrow> status \<Rightarrow> chain \<Rightarrow> chain" where
  "setStatus i st chain =
     chain\<lparr> steps := (steps chain)[i := (steps chain ! i)\<lparr> step_status := st \<rparr>],
            chain_status := st \<rparr>"

text \<open>
  The two ends of \<^verbatim>\<open>onWorkflowFinished\<close>, the same in both revisions. On an error of the
  workflow: both statuses to \<^verbatim>\<open>failed\<close>, and \<^verbatim>\<open>reject(new Error(v))\<close>.
\<close>

definition failStep :: "nat \<Rightarrow> json \<Rightarrow> run \<Rightarrow> run" where
  "failStep i v r =
     settle (Rejected (UpstreamError v)) (r\<lparr> run_chain := setStatus i Failed (run_chain r) \<rparr>)"

text \<open>
  Otherwise: the outputs are stored on the step, the step is \<^verbatim>\<open>completed\<close>, the cursor
  moves on, the chain is \<^verbatim>\<open>completed\<close> or \<^verbatim>\<open>pending\<close> again, and the promise is resolved
  with the id of the step and the same outputs.
\<close>

definition completeStep :: "nat \<Rightarrow> jmap \<Rightarrow> run \<Rightarrow> run" where
  "completeStep i outs r =
     (let chain = run_chain r;
          currentStep = (steps chain ! i)\<lparr> outputs := Some outs, step_status := Completed \<rparr>;
          chain = chain\<lparr> steps := (steps chain)[i := currentStep],
                           currentStepIndex := currentStepIndex chain + 1 \<rparr>;
          chain = chain\<lparr> chain_status :=
                    (if currentStepIndex chain \<ge> length (steps chain) then Completed
                     else Pending) \<rparr>
      in settle (Resolved \<lparr> stepId = step_id currentStep, resultOutputs = outs, success = True \<rparr>)
           (r\<lparr> run_chain := chain \<rparr>))"

text \<open>Later revision. \<^verbatim>\<open>eventData.data && eventData.data.k\<close>:\<close>

definition dataField :: "string \<Rightarrow> json \<Rightarrow> json option" where
  "dataField k eventData = guardedProp k (getProp ''data'' eventData)"

definition stepOnNodeFinished :: "json \<Rightarrow> run \<Rightarrow> error option \<times> run" where
  "stepOnNodeFinished eventData r =
     (None,
      if truthyP (dataField ''outputs'' eventData)
      then r\<lparr> nodeOutputs := nodeOutputs r ++ spread (the (dataField ''outputs'' eventData)) \<rparr>
      else r)"

definition stepOnWorkflowFinished :: "nat \<Rightarrow> json \<Rightarrow> run \<Rightarrow> error option \<times> run" where
  "stepOnWorkflowFinished i eventData r =
     (None,
      if truthyP (dataField ''error'' eventData) then
        failStep i (the (dataField ''error'' eventData)) r
      else
        let workflowOutputs =
              (if truthyP (dataField ''outputs'' eventData)
               then spread (the (dataField ''outputs'' eventData)) else Map.empty)
        in completeStep i (nodeOutputs r ++ workflowOutputs) r)"

text \<open>
  Earlier revision. \<^verbatim>\<open>onNodeFinished\<close> only logs. \<^verbatim>\<open>onWorkflowFinished\<close> starts with
  \<^verbatim>\<open>if (eventData.data.error)\<close>, which throws a \<^verbatim>\<open>TypeError\<close> when the event has no
  \<^verbatim>\<open>data\<close> or a \<^verbatim>\<open>null\<close> one; then \<^verbatim>\<open>outputs = eventData.data.outputs || {}\<close>. The stored
  outputs are kept as the map of their own properties.
\<close>

definition hasData :: "json \<Rightarrow> bool" where
  "hasData eventData =
     (case getProp ''data'' eventData of None \<Rightarrow> False | Some dat \<Rightarrow> dat \<noteq> JNull)"

definition earlierOnWorkflowFinished :: "nat \<Rightarrow> json \<Rightarrow> run \<Rightarrow> error option \<times> run" where
  "earlierOnWorkflowFinished i eventData r =
     (if \<not> hasData eventData
      then (Some (TypeError ''Cannot read properties of undefined (reading error)''), r)
      else
        let dat = the (getProp ''data'' eventData) in
        (None,
         if truthyP (getProp ''error'' dat) then failStep i (the (getProp ''error'' dat)) r
         else completeStep i
                (if truthyP (getProp ''outputs'' dat) then spread (the (getProp ''outputs'' dat))
                 else Map.empty) r))"

definition stepCallbacks :: "revision \<Rightarrow> nat \<Rightarrow> run callbacks" where
  "stepCallbacks rv i = \<lparr>
     onWorkflowStarted = (\<lambda>d r. (None, r)),
     onNodeStarted = (\<lambda>d r. (None, r)),
     onNodeFinished = (case rv of Earlier \<Rightarrow> (\<lambda>d r. (None, r)) | Later \<Rightarrow> stepOnNodeFinished),
     onWorkflowFinished =
       (case rv of Earlier \<Rightarrow> earlierOnWorkflowFinished i | Later \<Rightarrow> stepOnWorkflowFinished i) \<rparr>"

text \<open>The payloads on which the \<^verbatim>\<open>onWorkflowFinished\<close> of a revision returns.\<close>

definition returnsOn :: "revision \<Rightarrow> json \<Rightarrow> bool" where
  "returnsOn rv d = (case rv of Earlier \<Rightarrow> hasData d | Later \<Rightarrow> True)"

text \<open>
  The promise executor: statuses to \<^verbatim>\<open>running\<close>, the invocation, and the \<^verbatim>\<open>catch\<close> clause
  for whatever \<^verbatim>\<open>executeCustomWorkflow\<close> throws. When the invocation returns without
  \<^verbatim>\<open>resolve\<close> or \<^verbatim>\<open>reject\<close> having been called, nothing settles the promise.
\<close>

definition runStep ::
  "revision \<Rightarrow> (string \<Rightarrow> json option) \<Rightarrow> response \<Rightarrow> nat \<Rightarrow> chain \<Rightarrow> outcome \<times> chain" where
  "runStep rv parse resp i chain =
     (let r0 = \<lparr> run_chain = setStatus i Running chain, nodeOutputs = Map.empty, settled = None \<rparr>;
          (res, r1) = executeCustomWorkflow parse (stepCallbacks rv i) resp r0;
          r2 = (case res of
                  Inl e \<Rightarrow> settle (Rejected e) (r1\<lparr> run_chain := setStatus i Failed (run_chain r1) \<rparr>)
                | Inr f \<Rightarrow> r1)
      in (case settled r2 of None \<Rightarrow> NeverSettles | Some out \<Rightarrow> out, run_chain r2))"

text \<open>
  The remote service, as the function from the workflow id, the API key and the inputs
  of a POST to its response.
\<close>

type_synonym remote = "string \<Rightarrow> string \<Rightarrow> jmap \<Rightarrow> response"

definition executeNextStep ::
  "revision \<Rightarrow> (string \<Rightarrow> json option) \<Rightarrow> remote \<Rightarrow> string \<Rightarrow> jmap option \<Rightarrow> manager
     \<Rightarrow> outcome \<times> manager" where
  "executeNextStep rv parse remote chainId userMods m =
     (case m chainId of
        None \<Rightarrow> (Rejected (ChainNotFound chainId), m)
      | Some chain \<Rightarrow>
          let i = currentStepIndex chain in
          if \<not> i < length (steps chain) then (Rejected (NoMoreSteps chainId), m)
          else
            let currentStep = applyUserModifications userMods (steps chain ! i);
                chain = chain\<lparr> steps := (steps chain)[i := currentStep] \<rparr>
            in case stepInputsFor rv chain currentStep of
                 Inl e \<Rightarrow> (Rejected e, m(chainId \<mapsto> chain))
               | Inr stepInputs \<Rightarrow>
                   let (out, chain) =
                         runStep rv parse
                           (remote (workflowId currentStep) (apiKey currentStep) stepInputs) i chain
                   in (out, m(chainId \<mapsto> chain)))"

text \<open>
  The manager states that calls of the operations of one revision reach from the empty
  registry, one call at a time, none overlapping another; the accessors change nothing.
\<close>

inductive reachable :: "revision \<Rightarrow> manager \<Rightarrow> bool" where
  initial: "reachable rv Map.empty"
| create: "reachable rv m \<Longrightarrow> reachable rv (snd (createChain cid nm defs m))"
| execute: "reachable rv m \<Longrightarrow> reachable rv (snd (executeNextStep rv parse remote cid userMods m))"
| reset: "reachable rv m \<Longrightarrow> reachable rv (resetChain cid m)"
| delete: "reachable rv m \<Longrightarrow> reachable rv (snd (deleteChain cid m))"

section \<open>What a run collects, in the words of the specification\<close>

text \<open>
  The fragment map carried on a \<^verbatim>\<open>node_finished\<close> event (\<^verbatim>\<open>data.outputs\<close>, when there is
  one), the accumulation of the fragments by shallow merge, later fragments overwriting
  same-named keys of earlier ones, and the aggregate map carried on
  \<^verbatim>\<open>workflow_finished\<close>.
\<close>

fun fragment :: "call \<Rightarrow> jmap" where
  "fragment (NodeFinished d) =
     (if truthyP (dataField ''outputs'' d) then spread (the (dataField ''outputs'' d))
      else Map.empty)"
| "fragment c = Map.empty"

definition nodeAccumulated :: "call list \<Rightarrow> jmap" where
  "nodeAccumulated calls = foldl (\<lambda>acc c. acc ++ fragment c) Map.empty calls"

definition aggregate :: "json \<Rightarrow> jmap" where
  "aggregate d =
     (if truthyP (dataField ''outputs'' d) then spread (the (dataField ''outputs'' d))
      else Map.empty)"

text \<open>What \<^verbatim>\<open>nodeOutputs\<close> holds after the calls: nothing in the earlier revision.\<close>

definition accumulated :: "revision \<Rightarrow> call list \<Rightarrow> jmap" where
  "accumulated rv calls = (case rv of Earlier \<Rightarrow> Map.empty | Later \<Rightarrow> nodeAccumulated calls)"

section \<open>When an invocation fails, in the words of the specification\<close>

text \<open>
  The invocation fails with \<open>e\<close>: the transport or the decoder throws \<open>e\<close>, or the
  \<^verbatim>\<open>workflow_finished\<close> event that ends the decoding carries a truthy \<^verbatim>\<open>data.error\<close> and
  \<open>e\<close> is the error built from it.
\<close>

definition invocationFails ::
  "revision \<Rightarrow> (string \<Rightarrow> json option) \<Rightarrow> response \<Rightarrow> error \<Rightarrow> bool" where
  "invocationFails rv parse resp e =
     (case observed (returnsOn rv) parse resp of
        (Inl x, calls) \<Rightarrow> e = x
      | (Inr Next, calls) \<Rightarrow> False
      | (Inr Return, calls) \<Rightarrow>
          (case last calls of
             WorkflowFinished d \<Rightarrow>
               truthyP (dataField ''error'' d) \<and> e = UpstreamError (the (dataField ''error'' d))
           | _ \<Rightarrow> False))"

section \<open>The invariant of a stored chain\<close>

text \<open>
  The cursor is inside the step list or just behind it; a completed chain has run all of
  its steps, of which there is at least one; a chain with steps whose cursor is behind
  the last one is completed; a chain without steps is pending; every step before the
  cursor holds its outputs.
\<close>

definition chainInv :: "chain \<Rightarrow> bool" where
  "chainInv ch =
     (currentStepIndex ch \<le> length (steps ch)
      \<and> (chain_status ch = Completed \<longrightarrow>
            currentStepIndex ch = length (steps ch) \<and> steps ch \<noteq> [])
      \<and> (steps ch \<noteq> [] \<and> currentStepIndex ch = length (steps ch) \<longrightarrow>
            chain_status ch = Completed)
      \<and> (steps ch = [] \<longrightarrow> chain_status ch = Pending)
      \<and> (\<forall>j < currentStepIndex ch. outputs (steps ch ! j) \<noteq> None))"

text \<open>Every chain the registry holds satisfies the invariant.\<close>

definition managerInv :: "manager \<Rightarrow> bool" where
  "managerInv m = (\<forall>cid ch. m cid = Some ch \<longrightarrow> chainInv ch)"

section \<open>Example streams\<close>

text \<open>
  Records of the streaming protocol, and \<^verbatim>\<open>JSON.parse\<close> on the payloads the examples use.
\<close>

definition sseLine :: "string \<Rightarrow> string" where
  "sseLine payload = ''data: '' @ payload @ [newline]"

definition errorPayload :: string where
  \<open>errorPayload = ''{"event":"error","message":"boom"}''\<close>

definition nodePayload :: string where
  \<open>nodePayload = ''{"event":"node_finished","data":{"outputs":{"agent_output":"X"}}}''\<close>

definition finishedPayload :: string where
  \<open>finishedPayload = ''{"event":"workflow_finished","data":{"outputs":{"summary":"Y"}}}''\<close>

definition failedPayload :: string where
  \<open>failedPayload = ''{"event":"workflow_finished","data":{"error":"boom"}}''\<close>

definition barePayload :: string where
  \<open>barePayload = ''{"event":"workflow_finished"}''\<close>

definition errorJson :: json where
  "errorJson = JObj [(''event'', JStr ''error''), (''message'', JStr ''boom'')]"

definition nodeJson :: json where
  "nodeJson = JObj [(''event'', JStr ''node_finished''),
     (''data'', JObj [(''outputs'', JObj [(''agent_output'', JStr ''X'')])])]"

definition finishedJson :: json where
  "finishedJson = JObj [(''event'', JStr ''workflow_finished''),
     (''data'', JObj [(''outputs'', JObj [(''summary'', JStr ''Y'')])])]"

definition failedJson :: json where
  "failedJson = JObj [(''event'', JStr ''workflow_finished''),
     (''data'', JObj [(''error'', JStr ''boom'')])]"

definition bareJson :: json where
  "bareJson = JObj [(''event'', JStr ''workflow_finished'')]"

definition demoParse :: "string \<Rightarrow> json option" where
  "demoParse = map_of [
     (errorPayload, errorJson), (nodePayload, nodeJson),
     (finishedPayload, finishedJson), (failedPayload, failedJson), (barePayload, bareJson)]"

section \<open>Example chains and remote services\<close>

definition researchDef :: stepDef where
  "researchDef = \<lparr> name = ''Company Research'', workflowId = ''wf-1'', apiKey = ''app-1'',
     inputs = [''company_name'' \<mapsto> JStr ''Tesla''], allowUserEdit = True,
     userModifications = None, outputs = None \<rparr>"

definition singleChain :: chain where
  "singleChain = fst (createChain ''c'' ''Research'' [researchDef] Map.empty)"

definition singleManager :: manager where
  "singleManager = snd (createChain ''c'' ''Research'' [researchDef] Map.empty)"

text \<open>A service that answers every POST with the given body and then ends the stream.\<close>

definition answering :: "string list \<Rightarrow> remote" where
  "answering chunks w k i = Body chunks Done"

text \<open>A chain created with an empty step list.\<close>

definition emptyManager :: manager where
  "emptyManager = snd (createChain ''e'' ''Empty'' [] Map.empty)"

definition emptyChain :: chain where
  "emptyChain = fst (createChain ''e'' ''Empty'' [] Map.empty)"

text \<open>The registry after the one step of the example chain has run to its end.\<close>

definition doneManager :: "revision \<Rightarrow> manager" where
  "doneManager rv =
     snd (executeNextStep rv demoParse (answering [sseLine nodePayload, sseLine finishedPayload])
            ''c'' None singleManager)"

section \<open>Example chains at their second step\<close>

text \<open>
  A two-step chain whose first step has completed with the given outputs and whose second
  step, with the given default inputs and stored user modifications, is the current one.
\<close>

definition secondStepChain :: "jmap \<Rightarrow> jmap \<Rightarrow> jmap option \<Rightarrow> chain" where
  "secondStepChain prevOutputs defaults mods = \<lparr>
     chain_id = ''c2'', chain_name = ''Two-Step Research Chain'',
     steps = [
       \<lparr> name = ''Initial Research'', workflowId = ''wf-1'', apiKey = ''app-1'',
         inputs = [''company_name'' \<mapsto> JStr ''Apple''], allowUserEdit = True,
         userModifications = None, outputs = Some prevOutputs,
         step_id = ''c2-step-0'', step_status = Completed \<rparr>,
       \<lparr> name = ''Second Analysis'', workflowId = ''wf-2'', apiKey = ''app-2'',
         inputs = defaults, allowUserEdit = True,
         userModifications = mods, outputs = None,
         step_id = ''c2-step-1'', step_status = Pending \<rparr>],
     currentStepIndex = 1, chain_status = Pending \<rparr>"

text \<open>The effective input at a key, or the error of the resolution.\<close>

definition inputAt :: "string \<Rightarrow> error + jmap \<Rightarrow> error + json option" where
  "inputAt k r = (case r of Inl e \<Rightarrow> Inl e | Inr inp \<Rightarrow> Inr (inp k))"

text \<open>
  The second step of the two-step example declares \<^verbatim>\<open>second_input\<close>; the registry is
  taken after the first step has run to its end.
\<close>

definition analysisDef :: stepDef where
  "analysisDef = \<lparr> name = ''Detailed Analysis'', workflowId = ''wf-2'', apiKey = ''app-2'',
     inputs = [''second_input'' \<mapsto> JStr ''D'', ''extra'' \<mapsto> JStr ''d''], allowUserEdit = True,
     userModifications = None, outputs = None \<rparr>"

definition afterFirst :: manager where
  "afterFirst =
     snd (executeNextStep Later demoParse (answering [sseLine nodePayload, sseLine finishedPayload])
            ''c2'' None
            (snd (createChain ''c2'' ''Two-Step Research Chain'' [researchDef, analysisDef] Map.empty)))"

text \<open>
  The first step left an empty \<^verbatim>\<open>agent_output\<close>; the second step declares
  \<^verbatim>\<open>second_input\<close>.
\<close>

definition fallbackChain :: chain where
  "fallbackChain =
     secondStepChain [''agent_output'' \<mapsto> JStr [], ''current_de_op_output'' \<mapsto> JStr ''ops'']
       [''second_input'' \<mapsto> JStr ''D''] None"

text \<open>
  The second step declares both named slots; the first step left an empty
  \<^verbatim>\<open>agent_output\<close> in one chain, and only an \<^verbatim>\<open>agent_output\<close> in the other.
\<close>

definition slotDefaults :: jmap where
  "slotDefaults = [''competitor_input'' \<mapsto> JStr ''Will be populated from agent_output'',
                   ''current_de_op_input'' \<mapsto> JStr ''Will be populated from current_de_op_output'']"

definition emptyAgentChain :: chain where
  "emptyAgentChain = secondStepChain [''agent_output'' \<mapsto> JStr []] slotDefaults None"

definition scenarioC :: chain where
  "scenarioC = secondStepChain [''agent_output'' \<mapsto> JStr ''Y''] slotDefaults None"

text \<open>The chain that \<open>afterFirst\<close> holds, and a user modification of \<^verbatim>\<open>second_input\<close>.\<close>

definition afterFirstChain :: chain where
  "afterFirstChain = \<lparr>
     chain_id = ''c2'', chain_name = ''Two-Step Research Chain'',
     steps = [
       \<lparr> name = ''Company Research'', workflowId = ''wf-1'', apiKey = ''app-1'',
         inputs = [''company_name'' \<mapsto> JStr ''Tesla''], allowUserEdit = True,
         userModifications = None,
         outputs = Some [''agent_output'' \<mapsto> JStr ''X'', ''summary'' \<mapsto> JStr ''Y''],
         step_id = ''c2-step-0'', step_status = Completed \<rparr>,
       \<lparr> name = ''Detailed Analysis'', workflowId = ''wf-2'', apiKey = ''app-2'',
         inputs = [''second_input'' \<mapsto> JStr ''D'', ''extra'' \<mapsto> JStr ''d''], allowUserEdit = True,
         userModifications = None, outputs = None,
         step_id = ''c2-step-1'', step_status = Pending \<rparr>],
     currentStepIndex = 1, chain_status = Pending \<rparr>"

definition userEdit :: jmap where
  "userEdit = [''second_input'' \<mapsto> JStr ''U'']"

section \<open>Lines of a stream\<close>

lemma split_nl_not_Nil [simp]: "split_nl s \<noteq> []"
  by (induction s) (auto split: list.splits)

lemma split_nl_append:
  "split_nl (a @ b) = butlast (split_nl a) @ split_nl (last (split_nl a) @ b)"
proof (induction a)
  case Nil
  show ?case by simp
next
  case (Cons c cs)
  obtain l ls where sp: "split_nl cs = l # ls"
    by (cases "split_nl cs") simp_all
  obtain m ms where sq: "split_nl (cs @ b) = m # ms"
    by (cases "split_nl (cs @ b)") simp_all
  show ?case
  proof (cases "c = newline")
    case True
    with Cons show ?thesis by simp
  next
    case False
    show ?thesis
    proof (cases ls)
      case Nil
      with Cons sp sq False show ?thesis by simp
    next
      case (Cons l' ls')
      with Cons.IH sp sq False show ?thesis by simp
    qed
  qed
qed

lemma processLines_append:
  "processLines parse cb (xs @ ys) s =
     (case processLines parse cb xs s of
        (Return, s') \<Rightarrow> (Return, s')
      | (Next, s') \<Rightarrow> processLines parse cb ys s')"
  by (induction xs arbitrary: s) (auto split: prod.splits flow.splits)

lemma butlast_split_nl_append:
  "butlast (split_nl (a @ b)) =
     butlast (split_nl a) @ butlast (split_nl (last (split_nl a) @ b))"
  by (subst split_nl_append) (simp add: butlast_append)

lemma split_nl_no_newline: "newline \<notin> set s \<Longrightarrow> split_nl s = [s]"
  by (induction s) auto

lemma last_split_nl_no_newline: "newline \<notin> set (last (split_nl s))"
  by (induction s) (auto split: list.splits)

text \<open>
  Reading chunk by chunk with a carried buffer processes the complete lines of the
  buffer followed by all chunks, in one pass. The buffer never holds a line feed.
\<close>

lemma readLoop_concat:
  "newline \<notin> set buffer \<Longrightarrow>
   readLoop parse cb buffer chunks e s =
     (case processLines parse cb (butlast (split_nl (buffer @ concat chunks))) s of
        (Return, s') \<Rightarrow> (Inr Return, s')
      | (Next, s') \<Rightarrow>
          (case e of Done \<Rightarrow> (Inr Next, s') | ReadFails m \<Rightarrow> (Inl (ReadRejected m), s')))"
proof (induction chunks arbitrary: buffer s)
  case Nil
  then show ?case
    by (cases e) (simp_all add: split_nl_no_newline)
next
  case (Cons chunk chunks)
  let ?ls = "split_nl (buffer @ chunk)"
  have sp: "butlast (split_nl (buffer @ concat (chunk # chunks))) =
      butlast ?ls @ butlast (split_nl (last ?ls @ concat chunks))"
    using butlast_split_nl_append [of "buffer @ chunk" "concat chunks"] by simp
  have nb: "newline \<notin> set (last ?ls)"
    by (rule last_split_nl_no_newline)
  obtain f s1 where p1: "processLines parse cb (butlast ?ls) s = (f, s1)"
    by (cases "processLines parse cb (butlast ?ls) s")
  show ?case
  proof (cases f)
    case Next
    with p1 show ?thesis
      unfolding sp processLines_append
      by (simp add: Cons.IH [OF nb] del: concat.simps)
  next
    case Return
    with p1 show ?thesis
      unfolding sp processLines_append
      by (simp del: concat.simps)
  qed
qed

section \<open>The decoder and its callbacks\<close>

lemma replay_Nil [simp]: "replay cb [] s = s"
  by (simp add: replay_def)

lemma replay_append [simp]: "replay cb (xs @ ys) s = replay cb ys (replay cb xs s)"
  by (simp add: replay_def)

lemma replay_single [simp]: "replay cb [c] s = snd (applyCall cb c s)"
  by (simp add: replay_def)

lemma replay_Cons: "replay cb (c # calls) s = replay cb calls (snd (applyCall cb c s))"
  by (simp add: replay_def)

lemma replay_recorder [simp]: "replay (recorder returns) calls tr = tr @ calls"
proof (induction calls arbitrary: tr)
  case Nil
  show ?case by simp
next
  case (Cons c calls)
  have "snd (applyCall (recorder returns) c tr) = tr @ [c]"
    by (cases c) (simp_all add: recorder_def)
  then show ?case by (simp add: replay_Cons Cons.IH)
qed

lemma agrees_recorder: "agrees returns (recorder returns)"
  by (simp add: agrees_def recorder_def)

lemma called_quiet: "fst r = None \<Longrightarrow> called f r = (Inr f, snd r)"
  by (simp add: called_def)

lemma called_thrown: "fst r \<noteq> None \<Longrightarrow> \<exists>e. called f r = (Inl e, snd r)"
  by (cases "fst r") (simp_all add: called_def)

text \<open>
  One line, for callbacks that throw where the recorder does: the same way on, and the
  state that the recorded calls leave.
\<close>

lemma tryBody_replay:
  assumes "agrees returns cb"
  shows "(case tryBody parse cb line s of (Inl e, s') \<Rightarrow> (Next, s') | (Inr f, s') \<Rightarrow> (f, s')) =
     (fst (case tryBody parse (recorder returns) line [] of
             (Inl e, tr) \<Rightarrow> (Next, tr) | (Inr f, tr) \<Rightarrow> (f, tr)),
      replay cb (snd (tryBody parse (recorder returns) line [])) s)"
proof -
  have q: "fst (onWorkflowStarted cb d s) = None" "fst (onNodeStarted cb d s) = None"
    "fst (onNodeFinished cb d s) = None" for d
    using assms by (simp_all add: agrees_def)
  have w: "called Return (onWorkflowFinished cb d s) =
      (if returns d then (Inr Return, snd (onWorkflowFinished cb d s))
       else (Inl (the (fst (onWorkflowFinished cb d s))), snd (onWorkflowFinished cb d s)))" for d
  proof (cases "returns d")
    case True
    with assms have "fst (onWorkflowFinished cb d s) = None" by (simp add: agrees_def)
    with True show ?thesis by (simp add: called_def)
  next
    case False
    with assms have "fst (onWorkflowFinished cb d s) \<noteq> None" by (simp add: agrees_def)
    with False show ?thesis by (auto simp add: called_def)
  qed
  have r: "called Next (onWorkflowStarted (recorder returns) d ([]::call list)) = (Inr Next, [WorkflowStarted d])"
    "called Next (onNodeStarted (recorder returns) d ([]::call list)) = (Inr Next, [NodeStarted d])"
    "called Next (onNodeFinished (recorder returns) d ([]::call list)) = (Inr Next, [NodeFinished d])"
    "called Return (onWorkflowFinished (recorder returns) d ([]::call list)) =
       (if returns d then Inr Return else Inl (TypeError ''onWorkflowFinished''), [WorkflowFinished d])"
    for d
    by (simp_all add: called_def recorder_def)
  show ?thesis
    unfolding tryBody_def Let_def
    by (simp add: called_quiet q w r split: option.splits json.splits)
qed

lemma processLine_replay:
  assumes "agrees returns cb"
  shows "processLine parse cb line s =
     (fst (processLine parse (recorder returns) line []),
      replay cb (snd (processLine parse (recorder returns) line [])) s)"
proof (cases "trim line = [] \<or> \<not> startsWith ''data: '' line")
  case True
  then show ?thesis by (auto simp add: processLine_def)
next
  case False
  have "snd (case tryBody parse (recorder returns) line [] of
             (Inl e, tr) \<Rightarrow> (Next, tr) | (Inr f, tr) \<Rightarrow> (f, tr)) =
        snd (tryBody parse (recorder returns) line [])"
    by (auto split: prod.splits sum.splits)
  with False tryBody_replay [OF assms, of parse line s] show ?thesis
    by (simp add: processLine_def)
qed

lemma processLine_recorder:
  "processLine parse (recorder returns) line tr =
     (fst (processLine parse (recorder returns) line []),
      tr @ snd (processLine parse (recorder returns) line []))"
  using processLine_replay [OF agrees_recorder, where parse = parse and line = line and s = tr] by simp

lemma processLines_recorder:
  "processLines parse (recorder returns) lines tr =
     (fst (processLines parse (recorder returns) lines []),
      tr @ snd (processLines parse (recorder returns) lines []))"
proof (induction lines arbitrary: tr)
  case Nil
  show ?case by simp
next
  case (Cons l ls)
  obtain f c where r: "processLine parse (recorder returns) l [] = (f, c)"
    by (cases "processLine parse (recorder returns) l []")
  have a: "processLine parse (recorder returns) l tr = (f, tr @ c)"
    using processLine_recorder [where parse = parse and returns = returns and line = l and tr = tr] r by simp
  show ?case
  proof (cases f)
    case Return
    with a r show ?thesis by simp
  next
    case Next
    with a r show ?thesis
      using Cons.IH [of "tr @ c"] Cons.IH [of c] by simp
  qed
qed

lemma processLines_replay:
  assumes "agrees returns cb"
  shows "processLines parse cb lines s =
     (fst (processLines parse (recorder returns) lines []),
      replay cb (snd (processLines parse (recorder returns) lines [])) s)"
proof (induction lines arbitrary: s)
  case Nil
  show ?case by simp
next
  case (Cons l ls)
  obtain f c where r: "processLine parse (recorder returns) l [] = (f, c)"
    by (cases "processLine parse (recorder returns) l []")
  have a: "processLine parse cb l s = (f, replay cb c s)"
    using processLine_replay [OF assms, of parse l s] r by simp
  show ?case
  proof (cases f)
    case Return
    with a r show ?thesis by simp
  next
    case Next
    with a r show ?thesis
      using Cons.IH [of "replay cb c s"] processLines_recorder [where parse = parse and returns = returns and lines = ls and tr = c] by simp
  qed
qed

lemma executeCustomWorkflow_replay:
  assumes "agrees returns cb"
  shows "executeCustomWorkflow parse cb resp s =
     (fst (observed returns parse resp), replay cb (snd (observed returns parse resp)) s)"
proof (cases resp)
  case (Body chunks e)
  let ?ls = "butlast (split_nl (concat chunks))"
  obtain f c where r: "processLines parse (recorder returns) ?ls [] = (f, c)"
    by (cases "processLines parse (recorder returns) ?ls []")
  have a: "processLines parse cb ?ls s = (f, replay cb c s)"
    using processLines_replay [OF assms, of parse ?ls s] r by simp
  show ?thesis
    using Body r a
    by (cases f; cases e)
       (simp_all add: observed_def executeCustomWorkflow_def
          readLoop_concat [where buffer = "[]", simplified] del: readLoop.simps)
qed (simp_all add: observed_def executeCustomWorkflow_def)

text \<open>
  The recorded calls: the decoder returns after the first call of \<^verbatim>\<open>onWorkflowFinished\<close>
  that returns, and only then.
\<close>

lemma processLine_shape:
  "processLine parse (recorder returns) line [] = (f, c) \<Longrightarrow>
     (f = Return \<longrightarrow> (\<exists>d. c = [WorkflowFinished d] \<and> returns d)) \<and>
     (f = Next \<longrightarrow> (\<forall>x \<in> set c. \<not> finishes returns x))"
  by (auto simp add: processLine_def tryBody_def Let_def recorder_def called_def
      split: option.splits json.splits sum.splits if_splits)

lemma processLines_shape:
  "processLines parse (recorder returns) lines [] = (f, c) \<Longrightarrow>
     (f = Return \<longrightarrow>
        (\<exists>pre d. c = pre @ [WorkflowFinished d] \<and> returns d
           \<and> (\<forall>x \<in> set pre. \<not> finishes returns x))) \<and>
     (f = Next \<longrightarrow> (\<forall>x \<in> set c. \<not> finishes returns x))"
proof (induction lines arbitrary: f c)
  case Nil
  then show ?case by auto
next
  case (Cons l ls)
  obtain g d where r: "processLine parse (recorder returns) l [] = (g, d)"
    by (cases "processLine parse (recorder returns) l []")
  note sh = processLine_shape [OF r]
  show ?case
  proof (cases g)
    case Return
    with Cons.prems r sh show ?thesis by auto
  next
    case Next
    obtain h e where q: "processLines parse (recorder returns) ls [] = (h, e)"
      by (cases "processLines parse (recorder returns) ls []")
    have "processLines parse (recorder returns) (l # ls) [] = (h, d @ e)"
      using r Next q processLines_recorder [where parse = parse and returns = returns and lines = ls and tr = d] by simp
    with Cons.prems have fc: "f = h" "c = d @ e" by simp_all
    show ?thesis
    proof (cases h)
      case Next
      with Cons.IH [OF q] sh \<open>g = Next\<close> fc show ?thesis by auto
    next
      case Return
      with Cons.IH [OF q] obtain pre x where
        e: "e = pre @ [WorkflowFinished x]" and x: "returns x"
        and pre: "\<forall>y \<in> set pre. \<not> finishes returns y"
        by auto
      have "c = (d @ pre) @ [WorkflowFinished x]"
        using fc e by simp
      moreover have "\<forall>y \<in> set (d @ pre). \<not> finishes returns y"
        using pre sh \<open>g = Next\<close> by auto
      ultimately show ?thesis
        using Return fc x by blast
    qed
  qed
qed

lemma observed_shape:
  assumes "observed returns parse resp = (res, calls)"
  shows "(res = Inr Return \<longrightarrow>
            (\<exists>pre d. calls = pre @ [WorkflowFinished d] \<and> returns d
               \<and> (\<forall>x \<in> set pre. \<not> finishes returns x))) \<and>
         (res \<noteq> Inr Return \<longrightarrow> (\<forall>x \<in> set calls. \<not> finishes returns x))"
proof (cases resp)
  case (Body chunks e)
  let ?ls = "butlast (split_nl (concat chunks))"
  obtain f c where r: "processLines parse (recorder returns) ?ls [] = (f, c)"
    by (cases "processLines parse (recorder returns) ?ls []")
  note sh = processLines_shape [OF r]
  have "observed returns parse resp =
      (case f of Return \<Rightarrow> (Inr Return, c)
       | Next \<Rightarrow> (case e of Done \<Rightarrow> (Inr Next, c) | ReadFails m \<Rightarrow> (Inl (ReadRejected m), c)))"
    using Body r
    by (cases f)
       (simp_all add: observed_def executeCustomWorkflow_def
          readLoop_concat [where buffer = "[]", simplified] del: readLoop.simps)
  with assms sh show ?thesis
    by (cases f; cases e) auto
qed (use assms in \<open>auto simp add: observed_def executeCustomWorkflow_def\<close>)

section \<open>The callbacks of a step\<close>

lemma hasData_field:
  assumes "hasData d"
  shows "getProp k (the (getProp ''data'' d)) = dataField k d"
proof -
  from assms obtain dat where dat: "getProp ''data'' d = Some dat" and nn: "dat \<noteq> JNull"
    by (auto simp add: hasData_def split: option.splits)
  show ?thesis
    using nn by (cases dat) (simp_all add: dat dataField_def guardedProp_def)
qed

lemma agrees_stepCallbacks: "agrees (returnsOn rv) (stepCallbacks rv i)"
  by (cases rv)
     (simp_all add: agrees_def returnsOn_def stepCallbacks_def stepOnNodeFinished_def
        stepOnWorkflowFinished_def earlierOnWorkflowFinished_def Let_def)

lemma foldl_fragment_append:
  "foldl (\<lambda>acc c. acc ++ fragment c) a calls = a ++ foldl (\<lambda>acc c. acc ++ fragment c) Map.empty calls"
proof (induction calls arbitrary: a)
  case Nil
  show ?case by simp
next
  case (Cons c calls)
  show ?case
    using Cons.IH [of "a ++ fragment c"] Cons.IH [of "fragment c"] by simp
qed

lemma accumulated_Nil [simp]: "accumulated rv [] = Map.empty"
  by (cases rv) (simp_all add: accumulated_def nodeAccumulated_def)

lemma accumulated_Cons:
  "accumulated rv (c # calls) = accumulated rv [c] ++ accumulated rv calls"
  using foldl_fragment_append [of "fragment c" calls]
  by (cases rv) (simp_all add: accumulated_def nodeAccumulated_def)

text \<open>
  A call that is not the returning \<^verbatim>\<open>onWorkflowFinished\<close> leaves the chain and the promise
  as they are.
\<close>

lemma applyCall_step_not_finishing:
  "\<not> finishes (returnsOn rv) c \<Longrightarrow>
   snd (applyCall (stepCallbacks rv i) c r) = r\<lparr> nodeOutputs := nodeOutputs r ++ accumulated rv [c] \<rparr>"
  by (cases c; cases rv)
     (simp_all add: stepCallbacks_def stepOnNodeFinished_def returnsOn_def
        earlierOnWorkflowFinished_def accumulated_def nodeAccumulated_def)

lemma replay_step_not_finishing:
  "\<forall>x \<in> set pre. \<not> finishes (returnsOn rv) x \<Longrightarrow>
   replay (stepCallbacks rv i) pre r =
     r\<lparr> nodeOutputs := nodeOutputs r ++ accumulated rv pre \<rparr>"
proof (induction pre arbitrary: r)
  case Nil
  show ?case by simp
next
  case (Cons c pre)
  have "replay (stepCallbacks rv i) (c # pre) r =
      replay (stepCallbacks rv i) pre (r\<lparr> nodeOutputs := nodeOutputs r ++ accumulated rv [c] \<rparr>)"
    using Cons.prems by (simp add: replay_Cons applyCall_step_not_finishing)
  also have "\<dots> = r\<lparr> nodeOutputs := nodeOutputs r ++ accumulated rv [c] ++ accumulated rv pre \<rparr>"
    using Cons.prems by (simp add: Cons.IH)
  also have "nodeOutputs r ++ accumulated rv [c] ++ accumulated rv pre =
      nodeOutputs r ++ accumulated rv (c # pre)"
    using accumulated_Cons [of rv c pre] by simp
  finally show ?case .
qed

text \<open>
  The returning \<^verbatim>\<open>onWorkflowFinished\<close>, in both revisions: it fails the step on a truthy
  \<^verbatim>\<open>data.error\<close> and completes it otherwise, with the accumulated node outputs under the
  aggregate.
\<close>

lemma finishing_call:
  assumes "returnsOn rv d" and "nodeOutputs r = accumulated rv pre"
  shows "snd (onWorkflowFinished (stepCallbacks rv i) d r) =
     (if truthyP (dataField ''error'' d) then failStep i (the (dataField ''error'' d)) r
      else completeStep i (accumulated rv pre ++ aggregate d) r)"
proof (cases rv)
  case Earlier
  with assms(1) have hd: "hasData d" by (simp add: returnsOn_def)
  show ?thesis
    using Earlier hd
    by (simp add: stepCallbacks_def earlierOnWorkflowFinished_def Let_def hasData_field
        aggregate_def accumulated_def)
next
  case Later
  with assms(2) show ?thesis
    by (simp add: stepCallbacks_def stepOnWorkflowFinished_def Let_def aggregate_def)
qed

section \<open>The promise executor, by how the invocation ends\<close>

lemma runStep_throws:
  assumes "observed (returnsOn rv) parse resp = (Inl e, calls)"
  shows "runStep rv parse resp i chain = (Rejected e, setStatus i Failed (setStatus i Running chain))"
proof -
  from observed_shape [OF assms] have nf: "\<forall>x \<in> set calls. \<not> finishes (returnsOn rv) x" by simp
  show ?thesis
    using assms
    by (simp add: runStep_def Let_def executeCustomWorkflow_replay [OF agrees_stepCallbacks]
        replay_step_not_finishing [OF nf] settle_def)
qed

lemma runStep_exhausted:
  assumes "observed (returnsOn rv) parse resp = (Inr Next, calls)"
  shows "runStep rv parse resp i chain = (NeverSettles, setStatus i Running chain)"
proof -
  from observed_shape [OF assms] have nf: "\<forall>x \<in> set calls. \<not> finishes (returnsOn rv) x" by simp
  show ?thesis
    using assms
    by (simp add: runStep_def Let_def executeCustomWorkflow_replay [OF agrees_stepCallbacks]
        replay_step_not_finishing [OF nf] settle_def)
qed

lemma runStep_finished:
  assumes "observed (returnsOn rv) parse resp = (Inr Return, calls)"
  shows "\<exists>pre d. calls = pre @ [WorkflowFinished d] \<and> returnsOn rv d
     \<and> (\<forall>x \<in> set pre. \<not> finishes (returnsOn rv) x) \<and>
     runStep rv parse resp i chain =
       (let r0 = \<lparr> run_chain = setStatus i Running chain, nodeOutputs = accumulated rv pre,
                    settled = None \<rparr>;
            r = (if truthyP (dataField ''error'' d) then failStep i (the (dataField ''error'' d)) r0
                 else completeStep i (accumulated rv pre ++ aggregate d) r0)
        in (case settled r of None \<Rightarrow> NeverSettles | Some out \<Rightarrow> out, run_chain r))"
proof -
  from observed_shape [OF assms] obtain pre d where
    c: "calls = pre @ [WorkflowFinished d]" and rt: "returnsOn rv d"
    and nf: "\<forall>x \<in> set pre. \<not> finishes (returnsOn rv) x"
    by auto
  let ?r0 = "\<lparr> run_chain = setStatus i Running chain, nodeOutputs = accumulated rv pre,
                 settled = None \<rparr>"
  have fin: "snd (onWorkflowFinished (stepCallbacks rv i) d ?r0) =
     (if truthyP (dataField ''error'' d) then failStep i (the (dataField ''error'' d)) ?r0
      else completeStep i (accumulated rv pre ++ aggregate d) ?r0)"
    by (rule finishing_call [OF rt]) simp
  have "runStep rv parse resp i chain =
       (let r = snd (onWorkflowFinished (stepCallbacks rv i) d ?r0)
        in (case settled r of None \<Rightarrow> NeverSettles | Some out \<Rightarrow> out, run_chain r))"
    using assms c
    by (simp add: runStep_def Let_def executeCustomWorkflow_replay [OF agrees_stepCallbacks]
        replay_step_not_finishing [OF nf])
  with fin c rt nf show ?thesis
    by (simp add: Let_def)
qed

section \<open>Claims about the decoder\<close>

lemmas demo_defs =
  sseLine_def errorPayload_def nodePayload_def finishedPayload_def failedPayload_def
  barePayload_def errorJson_def nodeJson_def finishedJson_def failedJson_def bareJson_def
  demoParse_def newline_def

lemmas decoder_defs =
  observed_def executeCustomWorkflow_def processLine_def tryBody_def called_def Let_def
  trim_def is_space_def startsWith_def recorder_def returnsOn_def hasData_def

text \<open>
  Whatever the inner \<^verbatim>\<open>try\<close> block throws, the \<^verbatim>\<open>catch\<close> clause turns into a warning:
  the loop goes on with the next line.
\<close>

lemma thrown_in_line_is_caught:
  "trim line \<noteq> [] \<Longrightarrow> startsWith ''data: '' line \<Longrightarrow> tryBody parse cb line s = (Inl e, s')
     \<Longrightarrow> processLine parse cb line s = (Next, s')"
  by (simp add: processLine_def)

text \<open>
  C1 (the code does otherwise): a record whose \<^verbatim>\<open>event\<close> is \<^verbatim>\<open>error\<close> should fail the
  decode at once, with the message, and stop the reading. In the code, the same in both
  revisions, the \<^verbatim>\<open>throw new Error(data.message || ...)\<close> of the \<^verbatim>\<open>error\<close> case stands
  inside the \<^verbatim>\<open>try\<close> block whose \<^verbatim>\<open>catch\<close> only warns. On a stream of an error record
  followed by a \<^verbatim>\<open>node_finished\<close> record the decoder throws nothing, goes on to call
  \<^verbatim>\<open>onNodeFinished\<close> for the second record, and returns normally when the reader is done.
\<close>

theorem error_event_swallowed:
  "observed (returnsOn Later) demoParse (Body [sseLine errorPayload @ sseLine nodePayload] Done) =
     (Inr Next, [NodeFinished nodeJson])
   \<and> observed (returnsOn Earlier) demoParse (Body [sseLine errorPayload @ sseLine nodePayload] Done) =
     (Inr Next, [NodeFinished nodeJson])"
  by (simp add: decoder_defs demo_defs)

text \<open>
  C8: for every stream and every way of cutting it into chunks, also in the middle of a
  line, the decoder makes the same callback invocations, in the same order with the same
  payloads, and ends the same way, as on the whole stream delivered in one chunk. This
  holds for any callbacks and any state they share, and so for the sequence of calls that
  \<open>observed\<close> records.
\<close>

theorem chunking_invariance:
  "executeCustomWorkflow parse cb (Body chunks e) s =
     executeCustomWorkflow parse cb (Body [concat chunks] e) s
   \<and> observed returns parse (Body chunks e) = observed returns parse (Body [concat chunks] e)"
  by (simp add: observed_def executeCustomWorkflow_def
      readLoop_concat [where buffer = "[]", simplified] del: readLoop.simps)

section \<open>One call of \<^verbatim>\<open>executeNextStep\<close>\<close>

lemma executeNextStep_runs:
  assumes "m cid = Some ch" and "i = currentStepIndex ch" and "i < length (steps ch)"
    and "cs = applyUserModifications userMods (steps ch ! i)"
    and "stepInputsFor rv (ch\<lparr> steps := (steps ch)[i := cs] \<rparr>) cs = Inr inp"
  shows "executeNextStep rv parse remote cid userMods m =
     (fst (runStep rv parse (remote (workflowId cs) (apiKey cs) inp) i
             (ch\<lparr> steps := (steps ch)[i := cs] \<rparr>)),
      m(cid \<mapsto> snd (runStep rv parse (remote (workflowId cs) (apiKey cs) inp) i
                       (ch\<lparr> steps := (steps ch)[i := cs] \<rparr>))))"
  using assms by (simp add: executeNextStep_def Let_def split: prod.splits)

lemma setStatus_simps [simp]:
  "chain_status (setStatus i st ch) = st"
  "currentStepIndex (setStatus i st ch) = currentStepIndex ch"
  "length (steps (setStatus i st ch)) = length (steps ch)"
  "chain_id (setStatus i st ch) = chain_id ch"
  "chain_name (setStatus i st ch) = chain_name ch"
  by (simp_all add: setStatus_def)

lemma setStatus_step_status:
  "i < length (steps ch) \<Longrightarrow> step_status (steps (setStatus i st ch) ! i) = st"
  by (simp add: setStatus_def)

lemma setStatus_outputs [simp]:
  "map outputs (steps (setStatus i st ch)) = map outputs (steps ch)"
proof (rule nth_equalityI)
  show "length (map outputs (steps (setStatus i st ch))) = length (map outputs (steps ch))"
    by simp
next
  fix j
  assume "j < length (map outputs (steps (setStatus i st ch)))"
  then show "map outputs (steps (setStatus i st ch)) ! j = map outputs (steps ch) ! j"
    by (cases "j = i") (simp_all add: setStatus_def)
qed

lemma setStatus_nth_other:
  "j \<noteq> i \<Longrightarrow> steps (setStatus i st ch) ! j = steps ch ! j"
  by (simp add: setStatus_def)

lemma applyUserModifications_outputs [simp]:
  "outputs (applyUserModifications u s) = outputs s"
  "step_status (applyUserModifications u s) = step_status s"
  "inputs (applyUserModifications u s) = inputs s"
  "step_id (applyUserModifications u s) = step_id s"
  by (simp_all add: applyUserModifications_def split: option.splits)

lemma failStep_simps [simp]:
  "run_chain (failStep i v r) = setStatus i Failed (run_chain r)"
  "settled r = None \<Longrightarrow> settled (failStep i v r) = Some (Rejected (UpstreamError v))"
  by (simp_all add: failStep_def settle_def split: option.splits)

lemma completeStep_chain:
  "run_chain (completeStep i outs r) =
     (run_chain r)\<lparr>
        steps := (steps (run_chain r))[i := (steps (run_chain r) ! i)
                    \<lparr> outputs := Some outs, step_status := Completed \<rparr>],
        currentStepIndex := currentStepIndex (run_chain r) + 1,
        chain_status := (if currentStepIndex (run_chain r) + 1 \<ge> length (steps (run_chain r))
                         then Completed else Pending) \<rparr>"
  by (simp add: completeStep_def Let_def settle_def split: option.splits)

lemma completeStep_settled:
  "settled r = None \<Longrightarrow>
   settled (completeStep i outs r) =
     Some (Resolved \<lparr> stepId = step_id (steps (run_chain r) ! i), resultOutputs = outs,
                       success = True \<rparr>)"
  by (simp add: completeStep_def Let_def settle_def)

section \<open>Claims about one step\<close>

lemmas manager_defs =
  singleChain_def singleManager_def researchDef_def createChain_def answering_def
  applyUserModifications_def stepInputsFor_def stepInputsLater_def stepInputsEarlier_def

text \<open>
  C10: when the response body is exhausted (the reader reports \<^verbatim>\<open>done\<close>) and no
  \<^verbatim>\<open>workflow_finished\<close> event was observed, the promise of \<^verbatim>\<open>executeNextStep\<close> is neither
  resolved nor rejected: no result and no error reaches the caller, and the current step
  and the chain stay \<^verbatim>\<open>running\<close>, the cursor where it was. This holds in both revisions.
\<close>

theorem exhausted_never_settles:
  assumes "m cid = Some ch" and "i = currentStepIndex ch" and "i < length (steps ch)"
    and "cs = applyUserModifications userMods (steps ch ! i)"
    and "stepInputsFor rv (ch\<lparr> steps := (steps ch)[i := cs] \<rparr>) cs = Inr inp"
    and "remote (workflowId cs) (apiKey cs) inp = Body chunks Done"
    and "\<forall>c \<in> set (snd (observed (returnsOn rv) parse (Body chunks Done))). \<not> isFinished c"
  shows "\<exists>m' ch'. executeNextStep rv parse remote cid userMods m = (NeverSettles, m')
           \<and> m' cid = Some ch'
           \<and> chain_status ch' = Running
           \<and> step_status (steps ch' ! i) = Running
           \<and> currentStepIndex ch' = i"
proof -
  obtain res calls where ob: "observed (returnsOn rv) parse (Body chunks Done) = (res, calls)"
    by (cases "observed (returnsOn rv) parse (Body chunks Done)")
  have "res \<noteq> Inr Return"
  proof
    assume "res = Inr Return"
    with observed_shape [OF ob] obtain pre d where "calls = pre @ [WorkflowFinished d]"
      by auto
    with assms(7) ob show False by simp
  qed
  moreover have "res \<noteq> Inl e" for e
    using ob
    by (auto simp add: observed_def executeCustomWorkflow_def
          readLoop_concat [where buffer = "[]", simplified]
        simp del: readLoop.simps split: prod.splits flow.splits)
  ultimately have "res = Inr Next"
    by (cases res) (auto intro: flow.exhaust)
  with ob have rs: "runStep rv parse (Body chunks Done) i (ch\<lparr> steps := (steps ch)[i := cs] \<rparr>) =
      (NeverSettles, setStatus i Running (ch\<lparr> steps := (steps ch)[i := cs] \<rparr>))"
    by (simp add: runStep_exhausted)
  show ?thesis
    using executeNextStep_runs [where m = m and cid = cid, OF assms(1-5), of parse remote]
      assms(2,3,6) rs
    by (simp add: setStatus_step_status)
qed

theorem exhausted_never_settles_witness:
  "singleManager ''c'' = Some singleChain
   \<and> 0 = currentStepIndex singleChain
   \<and> 0 < length (steps singleChain)
   \<and> steps singleChain ! 0 = applyUserModifications None (steps singleChain ! 0)
   \<and> stepInputsFor Later (singleChain\<lparr> steps := (steps singleChain)[0 := steps singleChain ! 0] \<rparr>)
        (steps singleChain ! 0) = Inr (inputs researchDef)
   \<and> answering [sseLine nodePayload] (workflowId (steps singleChain ! 0))
        (apiKey (steps singleChain ! 0)) (inputs researchDef) = Body [sseLine nodePayload] Done
   \<and> snd (observed (returnsOn Later) demoParse (Body [sseLine nodePayload] Done)) =
        [NodeFinished nodeJson]
   \<and> (\<exists>m' ch'. executeNextStep Later demoParse (answering [sseLine nodePayload]) ''c'' None
                    singleManager = (NeverSettles, m')
           \<and> m' ''c'' = Some ch'
           \<and> chain_status ch' = Running
           \<and> step_status (steps ch' ! 0) = Running
           \<and> currentStepIndex ch' = 0)"
proof -
  have h1: "singleManager ''c'' = Some singleChain"
    by (simp add: manager_defs Let_def)
  have h2: "0 = currentStepIndex singleChain"
    by (simp add: manager_defs Let_def)
  have h3: "0 < length (steps singleChain)"
    by (simp add: manager_defs Let_def)
  have h4: "steps singleChain ! 0 = applyUserModifications None (steps singleChain ! 0)"
    by (simp add: applyUserModifications_def)
  have h5: "stepInputsFor Later (singleChain\<lparr> steps := (steps singleChain)[0 := steps singleChain ! 0] \<rparr>)
        (steps singleChain ! 0) = Inr (inputs researchDef)"
    by (simp add: manager_defs Let_def)
  have h6: "answering [sseLine nodePayload] (workflowId (steps singleChain ! 0))
        (apiKey (steps singleChain ! 0)) (inputs researchDef) = Body [sseLine nodePayload] Done"
    by (simp add: answering_def)
  have h7: "snd (observed (returnsOn Later) demoParse (Body [sseLine nodePayload] Done)) =
      [NodeFinished nodeJson]"
    by (simp add: decoder_defs demo_defs)
  have h7': "\<forall>c \<in> set (snd (observed (returnsOn Later) demoParse (Body [sseLine nodePayload] Done))).
      \<not> isFinished c"
    by (simp add: h7)
  from exhausted_never_settles [where m = singleManager and cid = "''c''" and ch = singleChain
      and i = 0 and cs = "steps singleChain ! 0" and userMods = None and rv = Later
      and inp = "inputs researchDef" and remote = "answering [sseLine nodePayload]"
      and chunks = "[sseLine nodePayload]" and parse = demoParse, OF h1 h2 h3 h4 h5 h6 h7']
  show ?thesis
    using h1 h2 h3 h4 h5 h6 h7 by blast
qed

lemma invocationFails_cases:
  assumes "invocationFails rv parse resp e"
  shows "(\<exists>calls. observed (returnsOn rv) parse resp = (Inl e, calls)) \<or>
         (\<exists>pre d. observed (returnsOn rv) parse resp = (Inr Return, pre @ [WorkflowFinished d])
             \<and> truthyP (dataField ''error'' d) \<and> e = UpstreamError (the (dataField ''error'' d)))"
proof -
  obtain res calls where ob: "observed (returnsOn rv) parse resp = (res, calls)"
    by (cases "observed (returnsOn rv) parse resp")
  show ?thesis
  proof (cases res)
    case (Inl x)
    with assms ob show ?thesis by (simp add: invocationFails_def)
  next
    case (Inr f)
    with assms ob have f: "f = Return"
      by (cases f) (simp_all add: invocationFails_def)
    with observed_shape [OF ob] Inr obtain pre d where
      c: "calls = pre @ [WorkflowFinished d]"
      by auto
    with assms ob Inr f show ?thesis
      by (simp add: invocationFails_def)
  qed
qed

lemma runStep_fails:
  assumes "invocationFails rv parse resp e"
  shows "runStep rv parse resp i chain = (Rejected e, setStatus i Failed (setStatus i Running chain))"
proof -
  from invocationFails_cases [OF assms] show ?thesis
  proof
    assume "\<exists>calls. observed (returnsOn rv) parse resp = (Inl e, calls)"
    then show ?thesis by (auto simp add: runStep_throws)
  next
    assume "\<exists>pre d. observed (returnsOn rv) parse resp = (Inr Return, pre @ [WorkflowFinished d])
             \<and> truthyP (dataField ''error'' d) \<and> e = UpstreamError (the (dataField ''error'' d))"
    then obtain pre d where ob: "observed (returnsOn rv) parse resp = (Inr Return, pre @ [WorkflowFinished d])"
      and t: "truthyP (dataField ''error'' d)" and e: "e = UpstreamError (the (dataField ''error'' d))"
      by blast
    from runStep_finished [OF ob, of i chain] t e show ?thesis
      by (auto simp add: Let_def)
  qed
qed

text \<open>
  C7: whenever the invocation of a step fails, by a \<^verbatim>\<open>workflow_finished\<close> event that
  carries a truthy \<^verbatim>\<open>data.error\<close> or by an exception of the transport or the decoder, the
  promise is rejected with that error, the current step and the chain become
  \<^verbatim>\<open>failed\<close>, the cursor stays, and no step's outputs are written. This holds in both
  revisions.
\<close>

theorem failure_marks_failed:
  assumes "m cid = Some ch" and "i = currentStepIndex ch" and "i < length (steps ch)"
    and "cs = applyUserModifications userMods (steps ch ! i)"
    and "stepInputsFor rv (ch\<lparr> steps := (steps ch)[i := cs] \<rparr>) cs = Inr inp"
    and "invocationFails rv parse (remote (workflowId cs) (apiKey cs) inp) e"
  shows "\<exists>m' ch'. executeNextStep rv parse remote cid userMods m = (Rejected e, m')
           \<and> m' cid = Some ch'
           \<and> chain_status ch' = Failed
           \<and> step_status (steps ch' ! i) = Failed
           \<and> currentStepIndex ch' = i
           \<and> map outputs (steps ch') = map outputs (steps ch)"
proof -
  have mo: "map outputs ((steps ch)[i := cs]) = map outputs (steps ch)"
  proof (rule nth_equalityI)
    show "length (map outputs ((steps ch)[i := cs])) = length (map outputs (steps ch))" by simp
  next
    fix j assume "j < length (map outputs ((steps ch)[i := cs]))"
    then show "map outputs ((steps ch)[i := cs]) ! j = map outputs (steps ch) ! j"
      using assms(4) by (cases "j = i") simp_all
  qed
  show ?thesis
    using executeNextStep_runs [where m = m and cid = cid, OF assms(1-5), of parse remote]
      assms(2,3) runStep_fails [OF assms(6)] mo
    by (simp add: setStatus_step_status)
qed

theorem failure_marks_failed_witness:
  "singleManager ''c'' = Some singleChain
   \<and> 0 = currentStepIndex singleChain
   \<and> 0 < length (steps singleChain)
   \<and> steps singleChain ! 0 = applyUserModifications None (steps singleChain ! 0)
   \<and> stepInputsFor Earlier (singleChain\<lparr> steps := (steps singleChain)[0 := steps singleChain ! 0] \<rparr>)
        (steps singleChain ! 0) = Inr (inputs researchDef)
   \<and> invocationFails Earlier demoParse
        (answering [sseLine failedPayload] (workflowId (steps singleChain ! 0))
           (apiKey (steps singleChain ! 0)) (inputs researchDef))
        (UpstreamError (JStr ''boom''))
   \<and> (\<exists>m' ch'. executeNextStep Earlier demoParse (answering [sseLine failedPayload]) ''c'' None
                    singleManager = (Rejected (UpstreamError (JStr ''boom'')), m')
           \<and> m' ''c'' = Some ch'
           \<and> chain_status ch' = Failed
           \<and> step_status (steps ch' ! 0) = Failed
           \<and> currentStepIndex ch' = 0
           \<and> map outputs (steps ch') = map outputs (steps singleChain))"
proof -
  have h1: "singleManager ''c'' = Some singleChain"
    by (simp add: manager_defs Let_def)
  have h2: "0 = currentStepIndex singleChain"
    by (simp add: manager_defs Let_def)
  have h3: "0 < length (steps singleChain)"
    by (simp add: manager_defs Let_def)
  have h4: "steps singleChain ! 0 = applyUserModifications None (steps singleChain ! 0)"
    by (simp add: applyUserModifications_def)
  have h5: "stepInputsFor Earlier (singleChain\<lparr> steps := (steps singleChain)[0 := steps singleChain ! 0] \<rparr>)
        (steps singleChain ! 0) = Inr (inputs researchDef)"
    by (simp add: manager_defs Let_def)
  have h6: "invocationFails Earlier demoParse
        (answering [sseLine failedPayload] (workflowId (steps singleChain ! 0))
           (apiKey (steps singleChain ! 0)) (inputs researchDef))
        (UpstreamError (JStr ''boom''))"
    by (simp add: invocationFails_def answering_def decoder_defs demo_defs dataField_def
        guardedProp_def)
  from failure_marks_failed [where m = singleManager and cid = "''c''" and ch = singleChain
      and i = 0 and cs = "steps singleChain ! 0" and userMods = None and rv = Earlier
      and inp = "inputs researchDef" and remote = "answering [sseLine failedPayload]"
      and parse = demoParse and e = "UpstreamError (JStr ''boom'')", OF h1 h2 h3 h4 h5 h6]
  show ?thesis
    using h1 h2 h3 h4 h5 h6 by blast
qed

lemma runStep_Resolved:
  assumes "runStep rv parse resp i chain = (Resolved r, chain')"
  shows "\<exists>pre d. observed (returnsOn rv) parse resp = (Inr Return, pre @ [WorkflowFinished d])
           \<and> (\<forall>x \<in> set pre. \<not> finishes (returnsOn rv) x)
           \<and> \<not> truthyP (dataField ''error'' d)
           \<and> chain' = run_chain (completeStep i (accumulated rv pre ++ aggregate d)
                  \<lparr> run_chain = setStatus i Running chain, nodeOutputs = accumulated rv pre,
                     settled = None \<rparr>)
           \<and> resultOutputs r = accumulated rv pre ++ aggregate d"
proof -
  obtain res calls where ob: "observed (returnsOn rv) parse resp = (res, calls)"
    by (cases "observed (returnsOn rv) parse resp")
  show ?thesis
  proof (cases res)
    case (Inl e)
    with ob assms show ?thesis by (simp add: runStep_throws)
  next
    case (Inr f)
    show ?thesis
    proof (cases f)
      case Next
      with ob Inr assms show ?thesis by (simp add: runStep_exhausted)
    next
      case Return
      with ob Inr have ob': "observed (returnsOn rv) parse resp = (Inr Return, calls)" by simp
      let ?r0 = "\<lambda>pre. \<lparr> run_chain = setStatus i Running chain, nodeOutputs = accumulated rv pre,
                     settled = None \<rparr>"
      from runStep_finished [OF ob', of i chain] obtain pre d where
        c: "calls = pre @ [WorkflowFinished d]"
        and nf: "\<forall>x \<in> set pre. \<not> finishes (returnsOn rv) x"
        and rs: "runStep rv parse resp i chain =
          (let r0 = ?r0 pre;
               r = (if truthyP (dataField ''error'' d) then failStep i (the (dataField ''error'' d)) r0
                    else completeStep i (accumulated rv pre ++ aggregate d) r0)
           in (case settled r of None \<Rightarrow> NeverSettles | Some out \<Rightarrow> out, run_chain r))"
        by blast
      have nt: "\<not> truthyP (dataField ''error'' d)"
      proof
        assume "truthyP (dataField ''error'' d)"
        with rs assms show False
          by (simp add: Let_def)
      qed
      from rs assms nt have "resultOutputs r = accumulated rv pre ++ aggregate d"
        by (auto simp add: Let_def completeStep_settled)
      moreover from rs assms nt have "chain' = run_chain (completeStep i (accumulated rv pre ++ aggregate d)
          (?r0 pre))"
        by (simp add: Let_def)
      ultimately show ?thesis
        using ob' c nf nt by blast
    qed
  qed
qed

lemma completeStep_outputs:
  assumes "i < length (steps (run_chain r))"
  shows "outputs (steps (run_chain (completeStep i outs r)) ! i) = Some outs"
  using assms by (simp add: completeStep_chain)

lemma executeNextStep_Resolved:
  assumes "executeNextStep rv parse remote cid userMods m = (Resolved r, m')"
  shows "\<exists>ch cs inp pre d ch'.
           m cid = Some ch
         \<and> cs = applyUserModifications userMods (steps ch ! currentStepIndex ch)
         \<and> stepInputsFor rv (ch\<lparr> steps := (steps ch)[currentStepIndex ch := cs] \<rparr>) cs = Inr inp
         \<and> observed (returnsOn rv) parse (remote (workflowId cs) (apiKey cs) inp) =
             (Inr Return, pre @ [WorkflowFinished d])
         \<and> (\<forall>x \<in> set pre. \<not> finishes (returnsOn rv) x)
         \<and> resultOutputs r = accumulated rv pre ++ aggregate d
         \<and> m' cid = Some ch'
         \<and> outputs (steps ch' ! currentStepIndex ch) = Some (accumulated rv pre ++ aggregate d)"
proof -
  from assms obtain ch where ch: "m cid = Some ch"
    by (cases "m cid") (simp_all add: executeNextStep_def)
  define i where "i = currentStepIndex ch"
  from assms ch have lt: "i < length (steps ch)"
    by (auto simp add: executeNextStep_def Let_def i_def split: if_splits)
  define cs where "cs = applyUserModifications userMods (steps ch ! i)"
  from assms ch lt obtain inp where
    inp: "stepInputsFor rv (ch\<lparr> steps := (steps ch)[i := cs] \<rparr>) cs = Inr inp"
    by (cases "stepInputsFor rv (ch\<lparr> steps := (steps ch)[i := cs] \<rparr>) cs")
       (simp_all add: executeNextStep_def Let_def i_def cs_def)
  let ?resp = "remote (workflowId cs) (apiKey cs) inp"
  let ?ch1 = "ch\<lparr> steps := (steps ch)[i := cs] \<rparr>"
  note run = executeNextStep_runs [where m = m and cid = cid, OF ch i_def lt cs_def inp, of parse remote]
  with assms have rs: "runStep rv parse ?resp i ?ch1 = (Resolved r, snd (runStep rv parse ?resp i ?ch1))"
    and m': "m' = m(cid \<mapsto> snd (runStep rv parse ?resp i ?ch1))"
    by (simp_all add: prod_eq_iff)
  from runStep_Resolved [OF rs] obtain pre d where
    ob: "observed (returnsOn rv) parse ?resp = (Inr Return, pre @ [WorkflowFinished d])"
    and nf: "\<forall>x \<in> set pre. \<not> finishes (returnsOn rv) x"
    and c': "snd (runStep rv parse ?resp i ?ch1) =
        run_chain (completeStep i (accumulated rv pre ++ aggregate d)
        \<lparr> run_chain = setStatus i Running ?ch1, nodeOutputs = accumulated rv pre, settled = None \<rparr>)"
    and ro: "resultOutputs r = accumulated rv pre ++ aggregate d"
    by blast
  have "outputs (steps (snd (runStep rv parse ?resp i ?ch1)) ! i) =
      Some (accumulated rv pre ++ aggregate d)"
    unfolding c' using lt by (subst completeStep_outputs) simp_all
  with ch inp ob nf ro m' show ?thesis
    unfolding i_def cs_def [unfolded i_def] by auto
qed

text \<open>
  C2 (amended): whenever a step invocation succeeds, the decoder has ended on a
  \<^verbatim>\<open>workflow_finished\<close> event, and the output map, both in the returned
  \<^verbatim>\<open>ChainStepResult\<close> and stored on the step that ran, is

  \<^item> in the later revision (\<^verbatim>\<open>unnamed/part_001\<close>), the shallow merge of the \<^verbatim>\<open>data.outputs\<close>
    fragments of the \<^verbatim>\<open>node_finished\<close> events before it (later fragments overwriting
    earlier ones) with the \<^verbatim>\<open>data.outputs\<close> of that \<^verbatim>\<open>workflow_finished\<close> event, the
    latter taking precedence;

  \<^item> in the earlier revision (\<^verbatim>\<open>service/workflow-chain.ts\<close>), whose \<^verbatim>\<open>onNodeFinished\<close> only
    logs, the \<^verbatim>\<open>data.outputs\<close> of that \<^verbatim>\<open>workflow_finished\<close> event alone.
\<close>

theorem outputs_are_merged:
  assumes "executeNextStep rv parse remote cid userMods m = (Resolved r, m')"
  shows "\<exists>ch cs inp pre d ch'.
           m cid = Some ch
         \<and> cs = applyUserModifications userMods (steps ch ! currentStepIndex ch)
         \<and> stepInputsFor rv (ch\<lparr> steps := (steps ch)[currentStepIndex ch := cs] \<rparr>) cs = Inr inp
         \<and> observed (returnsOn rv) parse (remote (workflowId cs) (apiKey cs) inp) =
             (Inr Return, pre @ [WorkflowFinished d])
         \<and> (\<forall>x \<in> set pre. \<not> finishes (returnsOn rv) x)
         \<and> resultOutputs r =
             (case rv of Later \<Rightarrow> nodeAccumulated pre ++ aggregate d | Earlier \<Rightarrow> aggregate d)
         \<and> m' cid = Some ch'
         \<and> outputs (steps ch' ! currentStepIndex ch) =
             Some (case rv of Later \<Rightarrow> nodeAccumulated pre ++ aggregate d
                   | Earlier \<Rightarrow> aggregate d)"
proof -
  have eq: "accumulated rv pre ++ aggregate d =
      (case rv of Later \<Rightarrow> nodeAccumulated pre ++ aggregate d | Earlier \<Rightarrow> aggregate d)" for pre d
    by (cases rv) (simp_all add: accumulated_def)
  from executeNextStep_Resolved [OF assms] show ?thesis
    unfolding eq .
qed

lemmas run_defs =
  executeNextStep_def runStep_def executeCustomWorkflow_def processLine_def tryBody_def called_def
  Let_def trim_def is_space_def startsWith_def stepCallbacks_def stepOnNodeFinished_def
  stepOnWorkflowFinished_def earlierOnWorkflowFinished_def hasData_def failStep_def
  completeStep_def dataField_def guardedProp_def settle_def setStatus_def show_nat.simps

theorem outputs_are_merged_witness:
  "executeNextStep Later demoParse (answering [sseLine nodePayload, sseLine finishedPayload]) ''c''
       None singleManager =
     (Resolved \<lparr> stepId = ''c-step-0'',
                 resultOutputs = [''agent_output'' \<mapsto> JStr ''X'', ''summary'' \<mapsto> JStr ''Y''],
                 success = True \<rparr>,
      snd (executeNextStep Later demoParse (answering [sseLine nodePayload, sseLine finishedPayload])
             ''c'' None singleManager))
   \<and> (\<exists>ch cs inp pre d ch'.
           singleManager ''c'' = Some ch
         \<and> cs = applyUserModifications None (steps ch ! currentStepIndex ch)
         \<and> stepInputsFor Later (ch\<lparr> steps := (steps ch)[currentStepIndex ch := cs] \<rparr>) cs = Inr inp
         \<and> observed (returnsOn Later) demoParse
              (answering [sseLine nodePayload, sseLine finishedPayload] (workflowId cs) (apiKey cs) inp) =
             (Inr Return, pre @ [WorkflowFinished d])
         \<and> [''agent_output'' \<mapsto> JStr ''X'', ''summary'' \<mapsto> JStr ''Y''] = nodeAccumulated pre ++ aggregate d
         \<and> snd (executeNextStep Later demoParse (answering [sseLine nodePayload, sseLine finishedPayload])
                  ''c'' None singleManager) ''c'' = Some ch'
         \<and> outputs (steps ch' ! currentStepIndex ch) = Some (nodeAccumulated pre ++ aggregate d))"
proof -
  have h: "executeNextStep Later demoParse (answering [sseLine nodePayload, sseLine finishedPayload]) ''c''
       None singleManager =
     (Resolved \<lparr> stepId = ''c-step-0'',
                 resultOutputs = [''agent_output'' \<mapsto> JStr ''X'', ''summary'' \<mapsto> JStr ''Y''],
                 success = True \<rparr>,
      snd (executeNextStep Later demoParse (answering [sseLine nodePayload, sseLine finishedPayload])
             ''c'' None singleManager))"
    by (simp add: prod_eq_iff manager_defs run_defs demo_defs)
  from outputs_are_merged [OF h] h show ?thesis
    by auto
qed

text \<open>
  C2, as stated, fails in the earlier revision, whose \<^verbatim>\<open>onNodeFinished\<close> only logs: on a
  stream with a \<^verbatim>\<open>node_finished\<close> event that carries \<^verbatim>\<open>agent_output\<close> and a
  \<^verbatim>\<open>workflow_finished\<close> event that carries \<^verbatim>\<open>summary\<close>, the step succeeds, and the output
  map that is returned and stored has the \<^verbatim>\<open>summary\<close> alone, not the merge of the two.
\<close>

theorem node_outputs_counterexample:
  "fst (executeNextStep Earlier demoParse (answering [sseLine nodePayload, sseLine finishedPayload])
          ''c'' None singleManager) =
     Resolved \<lparr> stepId = ''c-step-0'', resultOutputs = [''summary'' \<mapsto> JStr ''Y''],
                success = True \<rparr>
   \<and> map_option (\<lambda>ch. outputs (steps ch ! 0))
       (snd (executeNextStep Earlier demoParse
               (answering [sseLine nodePayload, sseLine finishedPayload]) ''c'' None singleManager)
          ''c'') = Some (Some [''summary'' \<mapsto> JStr ''Y''])
   \<and> observed (returnsOn Earlier) demoParse
         (Body [sseLine nodePayload, sseLine finishedPayload] Done) =
       (Inr Return, [NodeFinished nodeJson, WorkflowFinished finishedJson])
   \<and> (nodeAccumulated [NodeFinished nodeJson] ++ aggregate finishedJson) ''agent_output'' =
       Some (JStr ''X'')
   \<and> [''summary'' \<mapsto> JStr ''Y''] ''agent_output'' = None
   \<and> [''summary'' \<mapsto> JStr ''Y''] \<noteq> nodeAccumulated [NodeFinished nodeJson] ++ aggregate finishedJson"
proof -
  have a: "(nodeAccumulated [NodeFinished nodeJson] ++ aggregate finishedJson) ''agent_output'' =
       Some (JStr ''X'')"
    by (simp add: nodeAccumulated_def aggregate_def dataField_def guardedProp_def demo_defs
        map_add_def)
  have b: "[''summary'' \<mapsto> JStr ''Y''] ''agent_output'' = None"
    by simp
  from a b have c: "[''summary'' \<mapsto> JStr ''Y''] \<noteq>
      nodeAccumulated [NodeFinished nodeJson] ++ aggregate finishedJson"
    by (metis option.distinct(1))
  have d: "fst (executeNextStep Earlier demoParse (answering [sseLine nodePayload, sseLine finishedPayload])
          ''c'' None singleManager) =
     Resolved \<lparr> stepId = ''c-step-0'', resultOutputs = [''summary'' \<mapsto> JStr ''Y''],
                success = True \<rparr>"
    by (simp add: manager_defs run_defs demo_defs)
  have e: "map_option (\<lambda>ch. outputs (steps ch ! 0))
       (snd (executeNextStep Earlier demoParse
               (answering [sseLine nodePayload, sseLine finishedPayload]) ''c'' None singleManager)
          ''c'') = Some (Some [''summary'' \<mapsto> JStr ''Y''])"
    by (simp add: manager_defs run_defs demo_defs)
  have f: "observed (returnsOn Earlier) demoParse
         (Body [sseLine nodePayload, sseLine finishedPayload] Done) =
       (Inr Return, [NodeFinished nodeJson, WorkflowFinished finishedJson])"
    by (simp add: decoder_defs demo_defs returnsOn_def hasData_def)
  from a b c d e f show ?thesis
    by blast
qed

text \<open>
  A \<^verbatim>\<open>workflow_finished\<close> event without \<^verbatim>\<open>data\<close>: in the earlier revision the unguarded
  \<^verbatim>\<open>eventData.data.error\<close> throws inside the callback, the decoder's \<^verbatim>\<open>catch\<close> swallows
  it, and the promise is left unsettled at the end of the stream; the later revision
  completes the step with what the nodes gave.
\<close>

lemma finished_without_data:
  "fst (executeNextStep Earlier demoParse (answering [sseLine barePayload]) ''c'' None singleManager)
     = NeverSettles
   \<and> fst (executeNextStep Later demoParse (answering [sseLine barePayload]) ''c'' None singleManager)
     = Resolved \<lparr> stepId = ''c-step-0'', resultOutputs = Map.empty, success = True \<rparr>"
  by (simp add: manager_defs run_defs demo_defs)

section \<open>Claims about the registry\<close>

lemma createChain_steps_nth:
  assumes "i < length defs"
  shows "steps (fst (createChain cid nm defs m)) ! i =
     \<lparr> name = name (defs ! i), workflowId = workflowId (defs ! i), apiKey = apiKey (defs ! i),
       inputs = inputs (defs ! i), allowUserEdit = allowUserEdit (defs ! i),
       userModifications = userModifications (defs ! i), outputs = outputs (defs ! i),
       step_id = cid @ ''-step-'' @ show_nat i, step_status = Pending \<rparr>"
  using assms by (simp add: createChain_def Let_def nth_enumerate_eq)

text \<open>
  C9: \<^verbatim>\<open>createChain\<close> has no failing path. For every id, whether the registry holds a
  chain under it or not, it returns a fresh chain and stores it under the id, in place of
  any chain that was there: cursor 0, chain status \<^verbatim>\<open>pending\<close>, one step for each
  definition, in order, with status \<^verbatim>\<open>pending\<close>, id \<^verbatim>\<open><chainId>-step-<index>\<close> and the other
  fields of the definition.
\<close>

theorem createChain_never_fails:
  "\<exists>ch. createChain cid nm defs m = (ch, m(cid \<mapsto> ch))
     \<and> chain_id ch = cid \<and> chain_name ch = nm
     \<and> currentStepIndex ch = 0 \<and> chain_status ch = Pending
     \<and> length (steps ch) = length defs
     \<and> (\<forall>i < length defs.
           step_status (steps ch ! i) = Pending
         \<and> step_id (steps ch ! i) = cid @ ''-step-'' @ show_nat i
         \<and> stepDef.truncate (steps ch ! i) = defs ! i)"
proof -
  let ?ch = "fst (createChain cid nm defs m)"
  have "createChain cid nm defs m = (?ch, m(cid \<mapsto> ?ch))"
    by (simp add: createChain_def Let_def)
  moreover have "chain_id ?ch = cid" "chain_name ?ch = nm" "currentStepIndex ?ch = 0"
    "chain_status ?ch = Pending" "length (steps ?ch) = length defs"
    by (simp_all add: createChain_def Let_def)
  moreover have "\<forall>i < length defs.
           step_status (steps ?ch ! i) = Pending
         \<and> step_id (steps ?ch ! i) = cid @ ''-step-'' @ show_nat i
         \<and> stepDef.truncate (steps ?ch ! i) = defs ! i"
    by (simp add: createChain_steps_nth stepDef.truncate_def)
  ultimately show ?thesis by blast
qed


theorem createChain_never_fails_witness:
  "singleManager ''c'' = Some singleChain
   \<and> snd (createChain ''c'' ''Again'' [researchDef, researchDef] singleManager) ''c'' =
       Some (fst (createChain ''c'' ''Again'' [researchDef, researchDef] singleManager))
   \<and> chain_name (fst (createChain ''c'' ''Again'' [researchDef, researchDef] singleManager)) = ''Again''
   \<and> currentStepIndex (fst (createChain ''c'' ''Again'' [researchDef, researchDef] singleManager)) = 0
   \<and> chain_status (fst (createChain ''c'' ''Again'' [researchDef, researchDef] singleManager)) = Pending
   \<and> length (steps (fst (createChain ''c'' ''Again'' [researchDef, researchDef] singleManager))) = 2
   \<and> step_status (steps (fst (createChain ''c'' ''Again'' [researchDef, researchDef] singleManager)) ! 1)
        = Pending
   \<and> step_id (steps (fst (createChain ''c'' ''Again'' [researchDef, researchDef] singleManager)) ! 1)
        = ''c-step-1''
   \<and> stepDef.truncate (steps (fst (createChain ''c'' ''Again'' [researchDef, researchDef] singleManager)) ! 1)
        = researchDef"
proof -
  have h: "singleManager ''c'' = Some singleChain"
    by (simp add: singleManager_def singleChain_def createChain_def Let_def)
  have one: "(1::nat) < length [researchDef, researchDef]" by simp
  have sn: "show_nat 1 = ''1''" by (simp add: show_nat.simps)
  from createChain_never_fails [of "''c''" "''Again''" "[researchDef, researchDef]" singleManager]
  obtain ch where c: "createChain ''c'' ''Again'' [researchDef, researchDef] singleManager =
        (ch, singleManager(''c'' \<mapsto> ch))"
    and f: "chain_id ch = ''c''" "chain_name ch = ''Again''" "currentStepIndex ch = 0"
      "chain_status ch = Pending" "length (steps ch) = length [researchDef, researchDef]"
    and a: "\<forall>i < length [researchDef, researchDef].
           step_status (steps ch ! i) = Pending
         \<and> step_id (steps ch ! i) = ''c'' @ ''-step-'' @ show_nat i
         \<and> stepDef.truncate (steps ch ! i) = [researchDef, researchDef] ! i"
    by blast
  from a one have "step_status (steps ch ! 1) = Pending"
    "step_id (steps ch ! 1) = ''c'' @ ''-step-'' @ show_nat 1"
    "stepDef.truncate (steps ch ! 1) = [researchDef, researchDef] ! 1"
    by blast+
  with c f h sn show ?thesis by simp
qed

section \<open>The invariant is kept\<close>

lemma chainInv_setStatus_unfinished:
  assumes "chainInv ch" and "currentStepIndex ch < length (steps ch)" and "st \<noteq> Completed"
  shows "chainInv (setStatus i st ch)"
proof -
  have "outputs (steps (setStatus i st ch) ! j) = outputs (steps ch ! j)" if "j < length (steps ch)" for j
    using that by (cases "j = i") (simp_all add: setStatus_def)
  moreover from assms(2) have "steps (setStatus i st ch) \<noteq> []" "steps ch \<noteq> []"
    by (auto simp add: setStatus_def)
  ultimately show ?thesis
    using assms by (simp add: chainInv_def)
qed

lemma chainInv_outputs:
  "chainInv ch \<Longrightarrow> j < currentStepIndex ch \<Longrightarrow> outputs (steps ch ! j) \<noteq> None"
  unfolding chainInv_def by blast

lemma chainInv_completeStep:
  assumes "chainInv ch" and "currentStepIndex ch < length (steps ch)"
  shows "chainInv (run_chain (completeStep (currentStepIndex ch) outs
            \<lparr> run_chain = setStatus (currentStepIndex ch) Running ch, nodeOutputs = acc,
               settled = None \<rparr>))"
proof -
  let ?i = "currentStepIndex ch"
  let ?ch' = "run_chain (completeStep ?i outs
            \<lparr> run_chain = setStatus ?i Running ch, nodeOutputs = acc, settled = None \<rparr>)"
  note cc = completeStep_chain [of ?i outs
      "\<lparr> run_chain = setStatus ?i Running ch, nodeOutputs = acc, settled = None \<rparr>"]
  have len: "length (steps ?ch') = length (steps ch)"
    by (simp add: cc)
  have cur: "currentStepIndex ?ch' = ?i + 1"
    by (simp add: cc)
  have st: "chain_status ?ch' = (if ?i + 1 \<ge> length (steps ch) then Completed else Pending)"
    by (simp add: cc)
  have out: "outputs (steps ?ch' ! j) \<noteq> None" if "j < ?i + 1" for j
  proof (cases "j = ?i")
    case True
    with assms(2) show ?thesis by (simp add: cc)
  next
    case False
    with that have "j < ?i" by simp
    with assms(1) have "outputs (steps ch ! j) \<noteq> None"
      by (rule chainInv_outputs)
    moreover have "steps ?ch' ! j = steps ch ! j"
      using False by (simp add: cc setStatus_nth_other)
    ultimately show ?thesis by simp
  qed
  from assms(2) have ne: "steps ?ch' \<noteq> []"
    using len by auto
  show ?thesis
    unfolding chainInv_def
  proof (intro conjI)
    show "currentStepIndex ?ch' \<le> length (steps ?ch')"
      using assms(2) by (simp add: cur len)
    show "chain_status ?ch' = Completed \<longrightarrow>
            currentStepIndex ?ch' = length (steps ?ch') \<and> steps ?ch' \<noteq> []"
      using assms(2) ne by (simp add: cur len st)
    show "steps ?ch' \<noteq> [] \<and> currentStepIndex ?ch' = length (steps ?ch') \<longrightarrow>
            chain_status ?ch' = Completed"
      by (simp add: cur len st)
    show "steps ?ch' = [] \<longrightarrow> chain_status ?ch' = Pending"
      using ne by simp
    show "\<forall>j < currentStepIndex ?ch'. outputs (steps ?ch' ! j) \<noteq> None"
      using out by (simp only: cur) blast
  qed
qed

lemma runStep_chain_cases:
  obtains
    (failed) "snd (runStep rv parse resp i ch) = setStatus i Failed (setStatus i Running ch)"
  | (running) "snd (runStep rv parse resp i ch) = setStatus i Running ch"
  | (completed) outs acc where
      "snd (runStep rv parse resp i ch) = run_chain (completeStep i outs
          \<lparr> run_chain = setStatus i Running ch, nodeOutputs = acc, settled = None \<rparr>)"
proof -
  obtain res calls where ob: "observed (returnsOn rv) parse resp = (res, calls)"
    by (cases "observed (returnsOn rv) parse resp")
  show ?thesis
  proof (cases res)
    case (Inl e)
    with ob show ?thesis by (simp add: runStep_throws failed)
  next
    case (Inr f)
    show ?thesis
    proof (cases f)
      case Next
      with ob Inr show ?thesis by (simp add: runStep_exhausted running)
    next
      case Return
      with ob Inr have ob': "observed (returnsOn rv) parse resp = (Inr Return, calls)" by simp
      from runStep_finished [OF ob', of i ch] obtain pre d where
        rs: "runStep rv parse resp i ch =
          (let r0 = \<lparr> run_chain = setStatus i Running ch, nodeOutputs = accumulated rv pre,
                       settled = None \<rparr>;
               r = (if truthyP (dataField ''error'' d) then failStep i (the (dataField ''error'' d)) r0
                    else completeStep i (accumulated rv pre ++ aggregate d) r0)
           in (case settled r of None \<Rightarrow> NeverSettles | Some out \<Rightarrow> out, run_chain r))"
        by blast
      show ?thesis
      proof (cases "truthyP (dataField ''error'' d)")
        case True
        with rs have "snd (runStep rv parse resp i ch) = setStatus i Failed (setStatus i Running ch)"
          by (simp add: Let_def)
        then show ?thesis by (rule failed)
      next
        case False
        with rs have "snd (runStep rv parse resp i ch) =
            run_chain (completeStep i (accumulated rv pre ++ aggregate d)
              \<lparr> run_chain = setStatus i Running ch, nodeOutputs = accumulated rv pre,
                 settled = None \<rparr>)"
          by (simp add: Let_def)
        then show ?thesis by (rule completed)
      qed
    qed
  qed
qed

lemma chainInv_runStep:
  assumes "chainInv ch" and "i = currentStepIndex ch" and "i < length (steps ch)"
  shows "chainInv (snd (runStep rv parse resp i ch))"
proof (cases rule: runStep_chain_cases [of rv parse resp i ch])
  case failed
  have "chainInv (setStatus i Running ch)"
    using assms by (intro chainInv_setStatus_unfinished) simp_all
  then have "chainInv (setStatus i Failed (setStatus i Running ch))"
    using assms by (intro chainInv_setStatus_unfinished) simp_all
  with failed show ?thesis by simp
next
  case running
  with assms show ?thesis by (simp add: chainInv_setStatus_unfinished)
next
  case (completed outs acc)
  with assms(2) chainInv_completeStep [OF assms(1) assms(3) [unfolded assms(2)], of outs acc]
  show ?thesis by simp
qed

lemma chainInv_applied:
  assumes "chainInv ch" and "i = currentStepIndex ch" and "i < length (steps ch)"
  shows "chainInv (ch\<lparr> steps := (steps ch)[i := applyUserModifications userMods (steps ch ! i)] \<rparr>)"
proof -
  have "outputs ((steps ch)[i := applyUserModifications userMods (steps ch ! i)] ! j) = outputs (steps ch ! j)"
    if "j < length (steps ch)" for j
    using that by (cases "j = i") simp_all
  with assms show ?thesis by (simp add: chainInv_def)
qed

lemma managerInv_executeNextStep:
  assumes "managerInv m"
  shows "managerInv (snd (executeNextStep rv parse remote cid userMods m))"
proof (cases "m cid")
  case None
  with assms show ?thesis by (simp add: executeNextStep_def)
next
  case (Some ch)
  with assms have inv: "chainInv ch" by (simp add: managerInv_def)
  define i where "i = currentStepIndex ch"
  show ?thesis
  proof (cases "i < length (steps ch)")
    case False
    with Some assms show ?thesis by (simp add: executeNextStep_def Let_def i_def)
  next
    case True
    define cs where "cs = applyUserModifications userMods (steps ch ! i)"
    let ?ch1 = "ch\<lparr> steps := (steps ch)[i := cs] \<rparr>"
    have inv1: "chainInv ?ch1"
      unfolding cs_def using inv i_def True by (rule chainInv_applied)
    show ?thesis
    proof (cases "stepInputsFor rv ?ch1 cs")
      case (Inl e)
      with Some True have "snd (executeNextStep rv parse remote cid userMods m) = m(cid \<mapsto> ?ch1)"
        by (simp add: executeNextStep_def Let_def i_def cs_def)
      with assms inv1 show ?thesis by (simp add: managerInv_def)
    next
      case (Inr inp)
      have "chainInv (snd (runStep rv parse (remote (workflowId cs) (apiKey cs) inp) i ?ch1))"
        using inv1 True by (intro chainInv_runStep) (simp_all add: i_def)
      with executeNextStep_runs [where m = m and cid = cid, OF Some i_def True cs_def Inr, of parse remote]
        assms show ?thesis by (simp add: managerInv_def)
    qed
  qed
qed

lemma chainInv_created: "chainInv (fst (createChain cid nm defs m))"
proof -
  let ?ch = "fst (createChain cid nm defs m)"
  have "currentStepIndex ?ch = 0" "chain_status ?ch = Pending"
    by (simp_all add: createChain_def Let_def)
  then show ?thesis
    by (simp add: chainInv_def)
qed

lemma managerInv_createChain:
  assumes "managerInv m"
  shows "managerInv (snd (createChain cid nm defs m))"
proof -
  have "snd (createChain cid nm defs m) = m(cid \<mapsto> fst (createChain cid nm defs m))"
    by (simp add: createChain_def Let_def)
  with assms chainInv_created [of cid nm defs m] show ?thesis
    by (simp add: managerInv_def)
qed

lemma chainInv_reset:
  "chainInv (ch\<lparr> currentStepIndex := 0, chain_status := Pending,
       steps := map (\<lambda>s. s\<lparr> step_status := Pending, outputs := None,
                              userModifications := None \<rparr>) (steps ch) \<rparr>)"
  by (simp add: chainInv_def)

lemma managerInv_resetChain:
  assumes "managerInv m"
  shows "managerInv (resetChain cid m)"
proof (cases "m cid")
  case None
  with assms show ?thesis by (simp add: resetChain_def)
next
  case (Some ch)
  then have "resetChain cid m = m(cid \<mapsto> ch\<lparr> currentStepIndex := 0, chain_status := Pending,
       steps := map (\<lambda>s. s\<lparr> step_status := Pending, outputs := None,
                              userModifications := None \<rparr>) (steps ch) \<rparr>)"
    by (simp add: resetChain_def)
  with assms chainInv_reset [of ch] show ?thesis
    by (simp add: managerInv_def)
qed

lemma managerInv_deleteChain:
  assumes "managerInv m"
  shows "managerInv (snd (deleteChain cid m))"
  using assms by (simp add: managerInv_def deleteChain_def)

lemma reachable_managerInv: "reachable rv m \<Longrightarrow> managerInv m"
proof (induction rule: reachable.induct)
  case (initial rv)
  show ?case by (simp add: managerInv_def)
next
  case (create rv m cid nm defs)
  then show ?case by (simp add: managerInv_createChain)
next
  case (execute rv m parse remote cid userMods)
  then show ?case by (simp add: managerInv_executeNextStep)
next
  case (reset rv m cid)
  then show ?case by (simp add: managerInv_resetChain)
next
  case (delete rv m cid)
  then show ?case by (simp add: managerInv_deleteChain)
qed

section \<open>Claims about sequences of operations\<close>

text \<open>
  C6, as stated, fails for a chain created with an empty step list: it is stored with
  cursor 0, which is the length of its step list, and status \<^verbatim>\<open>pending\<close>; no operation
  ever completes it. \<^verbatim>\<open>createChain\<close> is the same in both revisions.
\<close>

theorem empty_chain_counterexample:
  "reachable Later emptyManager
   \<and> reachable Earlier emptyManager
   \<and> emptyManager ''e'' = Some emptyChain
   \<and> currentStepIndex emptyChain = length (steps emptyChain)
   \<and> chain_status emptyChain = Pending
   \<and> chain_status emptyChain \<noteq> Completed"
proof -
  have "reachable rv emptyManager" for rv
    unfolding emptyManager_def by (rule reachable.create [OF reachable.initial])
  then show ?thesis
    by (simp add: emptyManager_def emptyChain_def createChain_def Let_def)
qed

text \<open>
  C6 (amended): after any sequence of \<^verbatim>\<open>createChain\<close>, \<^verbatim>\<open>executeNextStep\<close>,
  \<^verbatim>\<open>resetChain\<close>, \<^verbatim>\<open>deleteChain\<close> and query operations, one at a time and none
  overlapping another, every stored chain has its cursor between 0 and the number of its
  steps; a completed chain has its cursor at the number of steps; for a chain with at
  least one step the cursor is at the number of steps exactly when the status is
  \<^verbatim>\<open>completed\<close>; and a chain without steps has cursor 0 and status \<^verbatim>\<open>pending\<close>, so that it
  is never completed. This holds in both revisions.
\<close>

theorem cursor_invariant:
  assumes "reachable rv m" and "m cid = Some ch"
  shows "0 \<le> currentStepIndex ch
     \<and> currentStepIndex ch \<le> length (steps ch)
     \<and> (chain_status ch = Completed \<longrightarrow> currentStepIndex ch = length (steps ch))
     \<and> (steps ch \<noteq> [] \<longrightarrow>
          (currentStepIndex ch = length (steps ch) \<longleftrightarrow> chain_status ch = Completed))
     \<and> (steps ch = [] \<longrightarrow>
          currentStepIndex ch = 0 \<and> chain_status ch = Pending \<and> chain_status ch \<noteq> Completed)"
proof -
  from reachable_managerInv [OF assms(1)] assms(2) have "chainInv ch"
    unfolding managerInv_def by blast
  then have a: "currentStepIndex ch \<le> length (steps ch)"
    and b: "chain_status ch = Completed \<longrightarrow>
              currentStepIndex ch = length (steps ch) \<and> steps ch \<noteq> []"
    and c: "steps ch \<noteq> [] \<and> currentStepIndex ch = length (steps ch) \<longrightarrow>
              chain_status ch = Completed"
    and d: "steps ch = [] \<longrightarrow> chain_status ch = Pending"
    unfolding chainInv_def by blast+
  from a have e: "steps ch = [] \<longrightarrow> currentStepIndex ch = 0"
    by auto
  show ?thesis
  proof (intro conjI)
    show "0 \<le> currentStepIndex ch"
      by simp
    show "currentStepIndex ch \<le> length (steps ch)"
      by (rule a)
    show "chain_status ch = Completed \<longrightarrow> currentStepIndex ch = length (steps ch)"
      using b by blast
    show "steps ch \<noteq> [] \<longrightarrow>
          (currentStepIndex ch = length (steps ch) \<longleftrightarrow> chain_status ch = Completed)"
      using b c by blast
    show "steps ch = [] \<longrightarrow>
          currentStepIndex ch = 0 \<and> chain_status ch = Pending \<and> chain_status ch \<noteq> Completed"
      using d e by simp
  qed
qed

theorem cursor_invariant_witness:
  "reachable Later (doneManager Later)
   \<and> doneManager Later ''c'' = Some (the (doneManager Later ''c''))
   \<and> currentStepIndex (the (doneManager Later ''c'')) = 1
   \<and> length (steps (the (doneManager Later ''c''))) = 1
   \<and> chain_status (the (doneManager Later ''c'')) = Completed
   \<and> steps (the (doneManager Later ''c'')) \<noteq> []
   \<and> reachable Earlier emptyManager
   \<and> emptyManager ''e'' = Some emptyChain
   \<and> steps emptyChain = []
   \<and> currentStepIndex emptyChain = 0
   \<and> chain_status emptyChain = Pending"
proof -
  have r: "reachable Later (doneManager Later)"
    unfolding doneManager_def singleManager_def
    by (rule reachable.execute [OF reachable.create [OF reachable.initial]])
  have s: "doneManager Later ''c'' = Some (the (doneManager Later ''c''))"
    by (simp add: doneManager_def manager_defs run_defs demo_defs)
  have c: "currentStepIndex (the (doneManager Later ''c'')) = 1"
    by (simp add: doneManager_def manager_defs run_defs demo_defs)
  have l: "length (steps (the (doneManager Later ''c''))) = 1"
    by (simp add: doneManager_def manager_defs run_defs demo_defs)
  have r': "reachable Earlier emptyManager"
    unfolding emptyManager_def by (rule reachable.create [OF reachable.initial])
  have s': "emptyManager ''e'' = Some emptyChain"
    and e: "steps emptyChain = []"
    by (simp_all add: emptyManager_def emptyChain_def createChain_def Let_def)
  from l have ne: "steps (the (doneManager Later ''c'')) \<noteq> []"
    by auto
  from cursor_invariant [OF r s] ne c l
  have cmp: "chain_status (the (doneManager Later ''c'')) = Completed"
    by simp
  from cursor_invariant [OF r' s'] e
  have z: "currentStepIndex emptyChain = 0" and p: "chain_status emptyChain = Pending"
    by simp_all
  show ?thesis
    by (intro conjI) (fact r s c l cmp ne r' s' e z p)+
qed

section \<open>Claims about the effective inputs\<close>

lemma orEmpty_simps [simp]:
  "orEmpty None = Map.empty"
  "orEmpty (Some u) = u"
  by (simp_all add: orEmpty_def)

lemma map_add_at:
  "(a ++ b) k = (case b k of Some v \<Rightarrow> Some v | None \<Rightarrow> a k)"
  by (simp add: map_add_def)







lemmas example_chain_defs =
  fallbackChain_def emptyAgentChain_def scenarioC_def slotDefaults_def secondStepChain_def




text \<open>
  The earlier revision on the same chains: it has neither the fallback nor the named
  slots, and merges all previous outputs where \<^verbatim>\<open>second_input\<close> and a truthy
  \<^verbatim>\<open>agent_output\<close> do not meet. The slots keep their defaults, and the fields of the
  previous outputs enter the inputs under their own names.
\<close>

lemma earlier_has_no_fallback:
  "inputAt ''second_input'' (stepInputsEarlier fallbackChain (steps fallbackChain ! 1))
     = Inr (Some (JStr ''D''))
   \<and> inputAt ''current_de_op_output'' (stepInputsEarlier fallbackChain (steps fallbackChain ! 1))
     = Inr (Some (JStr ''ops''))"
  by (simp add: example_chain_defs inputAt_def stepInputsEarlier_def Let_def)

lemma earlier_has_no_named_slots:
  "inputAt ''competitor_input'' (stepInputsEarlier scenarioC (steps scenarioC ! 1))
     = Inr (Some (JStr ''Will be populated from agent_output''))
   \<and> inputAt ''agent_output'' (stepInputsEarlier scenarioC (steps scenarioC ! 1))
     = Inr (Some (JStr ''Y''))"
  by (simp add: example_chain_defs inputAt_def stepInputsEarlier_def Let_def)

lemma userModifications_applied [simp]:
  "userModifications (applyUserModifications (Some u) s) = Some u"
  by (simp add: applyUserModifications_def)

lemma mapNamedSlots_base:
  assumes "userModifications cs = Some u" and "mapNamedSlots cs po = Inr inp"
  shows "\<exists>base. mapNamedSlots (cs\<lparr> userModifications := None \<rparr>) po = Inr base \<and> inp = base ++ u"
  using assms by (auto simp add: mapNamedSlots_def Let_def split: if_splits)

lemma mapSecondInput_base:
  assumes "userModifications cs = Some u" and "mapSecondInput cs po = Inr inp"
  shows "\<exists>base. mapSecondInput (cs\<lparr> userModifications := None \<rparr>) po = Inr base \<and> inp = base ++ u"
  using assms by (auto simp add: mapSecondInput_def Let_def split: if_splits)

text \<open>
  The resolution of a step with user modifications is the resolution of the same step
  without them, with the modifications merged on top; \<open>ch0\<close> is the chain in which the
  step is stored without them.
\<close>

lemma stepInputsLater_base:
  assumes "userModifications cs = Some u"
    and "0 < currentStepIndex ch \<Longrightarrow> outputs (steps ch ! (currentStepIndex ch - 1)) \<noteq> None"
    and "stepInputsLater ch cs = Inr inp"
    and "currentStepIndex ch0 = currentStepIndex ch" and "length (steps ch0) = length (steps ch)"
    and "0 < currentStepIndex ch \<Longrightarrow>
           steps ch0 ! (currentStepIndex ch - 1) = steps ch ! (currentStepIndex ch - 1)"
  shows "\<exists>base. stepInputsLater ch0 (cs\<lparr> userModifications := None \<rparr>) = Inr base
           \<and> inp = base ++ u"
proof (cases "0 < currentStepIndex ch")
  case False
  with assms(1,3,4) show ?thesis
    by (simp add: stepInputsLater_def Let_def)
next
  case True
  with assms(2) obtain po where po: "outputs (steps ch ! (currentStepIndex ch - 1)) = Some po"
    by auto
  from assms(3) True have lt: "currentStepIndex ch - 1 < length (steps ch)"
    by (simp add: stepInputsLater_def Let_def split: if_splits)
  from assms(3) True po lt have h: "inputs cs ''hasOwnProperty'' = None"
    by (simp add: stepInputsLater_def Let_def split: if_splits)
  let ?cb = "cs\<lparr> userModifications := None \<rparr>"
  have l: "stepInputsLater ch cs =
           (if inputs cs ''competitor_input'' \<noteq> None \<or> inputs cs ''current_de_op_input'' \<noteq> None
            then mapNamedSlots cs po
            else if inputs cs ''second_input'' \<noteq> None then mapSecondInput cs po
            else Inr (inputs cs ++ po ++ orEmpty (userModifications cs)))"
    using True po lt h by (simp add: stepInputsLater_def Let_def)
  have l0: "stepInputsLater ch0 ?cb =
           (if inputs cs ''competitor_input'' \<noteq> None \<or> inputs cs ''current_de_op_input'' \<noteq> None
            then mapNamedSlots ?cb po
            else if inputs cs ''second_input'' \<noteq> None then mapSecondInput ?cb po
            else Inr (inputs cs ++ po))"
    using True po lt h assms(4,5) assms(6) [OF True]
    by (simp add: stepInputsLater_def Let_def)
  show ?thesis
  proof (cases "inputs cs ''competitor_input'' \<noteq> None \<or> inputs cs ''current_de_op_input'' \<noteq> None")
    case named: True
    with l assms(3) have "mapNamedSlots cs po = Inr inp" by simp
    from mapNamedSlots_base [OF assms(1) this] named l0 show ?thesis by simp
  next
    case unnamed: False
    show ?thesis
    proof (cases "inputs cs ''second_input'' \<noteq> None")
      case True
      with unnamed l assms(3) have "mapSecondInput cs po = Inr inp" by simp
      from mapSecondInput_base [OF assms(1) this] unnamed True l0 show ?thesis by simp
    next
      case False
      with unnamed l l0 assms(1,3) show ?thesis by simp
    qed
  qed
qed

lemma stepInputsEarlier_base:
  assumes "userModifications cs = Some u"
    and "0 < currentStepIndex ch \<Longrightarrow> outputs (steps ch ! (currentStepIndex ch - 1)) \<noteq> None"
    and "stepInputsEarlier ch cs = Inr inp"
    and "currentStepIndex ch0 = currentStepIndex ch" and "length (steps ch0) = length (steps ch)"
    and "0 < currentStepIndex ch \<Longrightarrow>
           steps ch0 ! (currentStepIndex ch - 1) = steps ch ! (currentStepIndex ch - 1)"
  shows "\<exists>base. stepInputsEarlier ch0 (cs\<lparr> userModifications := None \<rparr>) = Inr base
           \<and> inp = base ++ u"
proof (cases "0 < currentStepIndex ch")
  case False
  with assms(1,3,4) show ?thesis
    by (simp add: stepInputsEarlier_def Let_def)
next
  case True
  with assms(2) obtain po where po: "outputs (steps ch ! (currentStepIndex ch - 1)) = Some po"
    by auto
  from assms(3) True have lt: "currentStepIndex ch - 1 < length (steps ch)"
    by (simp add: stepInputsEarlier_def Let_def split: if_splits)
  from assms(3) True po lt have h: "inputs cs ''hasOwnProperty'' = None"
    by (simp add: stepInputsEarlier_def Let_def split: if_splits)
  let ?cb = "cs\<lparr> userModifications := None \<rparr>"
  have l: "stepInputsEarlier ch cs =
           (if inputs cs ''second_input'' \<noteq> None \<and> truthyP (po ''agent_output'')
            then Inr ((inputs cs)(''second_input'' \<mapsto> the (po ''agent_output'')) ++ u)
            else Inr (inputs cs ++ po ++ u))"
    using True po lt h assms(1) by (simp add: stepInputsEarlier_def Let_def)
  have l0: "stepInputsEarlier ch0 ?cb =
           (if inputs cs ''second_input'' \<noteq> None \<and> truthyP (po ''agent_output'')
            then Inr ((inputs cs)(''second_input'' \<mapsto> the (po ''agent_output'')))
            else Inr (inputs cs ++ po))"
    using True po lt h assms(4,5) assms(6) [OF True]
    by (simp add: stepInputsEarlier_def Let_def)
  from l l0 assms(3) show ?thesis
    by (auto split: if_splits)
qed

text \<open>
  Without any of the three slots among the defaults, both revisions merge all previous
  outputs.
\<close>

lemma stepInputsFor_full_merge:
  assumes "0 < currentStepIndex ch" and "outputs (steps ch ! (currentStepIndex ch - 1)) = Some po"
    and "inputs cs ''competitor_input'' = None" and "inputs cs ''current_de_op_input'' = None"
    and "inputs cs ''second_input'' = None"
    and "stepInputsFor rv ch cs = Inr base"
  shows "base = inputs cs ++ po ++ orEmpty (userModifications cs)"
  using assms
  by (cases rv)
     (auto simp add: stepInputsFor_def stepInputsLater_def stepInputsEarlier_def Let_def
        split: if_splits)

text \<open>
  C5: in every state the manager reaches, when \<^verbatim>\<open>executeNextStep\<close> is called with user
  modifications \<open>u\<close> and the inputs of the step resolve, the input map that is sent to the
  remote workflow is what the same step resolves to without user modifications, from its
  defaults and the chained outputs of the previous step, with \<open>u\<close> merged over it last:
  it has the user's value at every key that \<open>u\<close> sets, whatever the defaults and the
  previous outputs hold there, and the resolved value at every other key. This holds
  whichever branch resolves the inputs (first step, named slots, \<^verbatim>\<open>second_input\<close>, or
  full merge) and in both revisions. What is resolved without the modifications is, for
  the first step, the defaults, and for a later step that declares none of the slots,
  the defaults with all previous outputs merged over them. The outcome of the call is
  that of running the step on the response to these inputs.
\<close>

theorem user_modifications_override:
  assumes "reachable rv m" and "m cid = Some ch"
    and "i = currentStepIndex ch" and "i < length (steps ch)"
    and "cs = applyUserModifications (Some u) (steps ch ! i)"
    and "stepInputsFor rv (ch\<lparr> steps := (steps ch)[i := cs] \<rparr>) cs = Inr inp"
  shows "(\<exists>base.
            stepInputsFor rv (ch\<lparr> steps := (steps ch)[i := cs\<lparr> userModifications := None \<rparr>] \<rparr>)
              (cs\<lparr> userModifications := None \<rparr>) = Inr base
          \<and> inp = base ++ u
          \<and> (\<forall>K v. u K = Some v \<longrightarrow> inp K = Some v)
          \<and> (\<forall>k. u k = None \<longrightarrow> inp k = base k)
          \<and> (i = 0 \<longrightarrow> base = inputs (steps ch ! i))
          \<and> (0 < i \<and> inputs (steps ch ! i) ''competitor_input'' = None
               \<and> inputs (steps ch ! i) ''current_de_op_input'' = None
               \<and> inputs (steps ch ! i) ''second_input'' = None
             \<longrightarrow> base = inputs (steps ch ! i) ++ orEmpty (outputs (steps ch ! (i - 1)))))
     \<and> executeNextStep rv parse remote cid (Some u) m =
         (fst (runStep rv parse (remote (workflowId cs) (apiKey cs) inp) i
                 (ch\<lparr> steps := (steps ch)[i := cs] \<rparr>)),
          m(cid \<mapsto> snd (runStep rv parse (remote (workflowId cs) (apiKey cs) inp) i
                           (ch\<lparr> steps := (steps ch)[i := cs] \<rparr>))))"
proof -
  let ?ch1 = "ch\<lparr> steps := (steps ch)[i := cs] \<rparr>"
  let ?cb = "cs\<lparr> userModifications := None \<rparr>"
  let ?chb = "ch\<lparr> steps := (steps ch)[i := ?cb] \<rparr>"
  have um: "userModifications cs = Some u"
    using assms(5) by simp
  have in0: "inputs ?cb = inputs (steps ch ! i)" and um0: "userModifications ?cb = None"
    using assms(5) by (simp_all add: applyUserModifications_def)
  have inv: "chainInv ch"
    using reachable_managerInv [OF assms(1)] assms(2) unfolding managerInv_def by blast
  have prev: "outputs (steps ?ch1 ! (currentStepIndex ?ch1 - 1)) \<noteq> None" if "0 < currentStepIndex ?ch1"
  proof -
    from that have "i - 1 < currentStepIndex ch" "i - 1 \<noteq> i" using assms(3) by simp_all
    with chainInv_outputs [OF inv, of "i - 1"] assms(3) show ?thesis by simp
  qed
  have c: "currentStepIndex ?chb = currentStepIndex ?ch1"
    and l: "length (steps ?chb) = length (steps ?ch1)"
    by simp_all
  have same: "steps ?chb ! (currentStepIndex ?ch1 - 1) = steps ?ch1 ! (currentStepIndex ?ch1 - 1)"
    if "0 < currentStepIndex ?ch1"
  proof -
    from that have "i - 1 \<noteq> i" using assms(3) by simp
    then show ?thesis using assms(3) by simp
  qed
  have "\<exists>base. stepInputsFor rv ?chb ?cb = Inr base \<and> inp = base ++ u"
  proof (cases rv)
    case Earlier
    with assms(6) have "stepInputsEarlier ?ch1 cs = Inr inp" by (simp add: stepInputsFor_def)
    from stepInputsEarlier_base [OF um prev this c l same] Earlier show ?thesis
      by (simp add: stepInputsFor_def)
  next
    case Later
    with assms(6) have "stepInputsLater ?ch1 cs = Inr inp" by (simp add: stepInputsFor_def)
    from stepInputsLater_base [OF um prev this c l same] Later show ?thesis
      by (simp add: stepInputsFor_def)
  qed
  then obtain base where b: "stepInputsFor rv ?chb ?cb = Inr base" and e: "inp = base ++ u"
    by blast
  have k1: "\<forall>K v. u K = Some v \<longrightarrow> inp K = Some v"
    by (simp add: e map_add_at)
  have k2: "\<forall>k. u k = None \<longrightarrow> inp k = base k"
    by (simp add: e map_add_at)
  have first: "i = 0 \<longrightarrow> base = inputs (steps ch ! i)"
  proof
    assume "i = 0"
    with assms(3) have "currentStepIndex ?chb = 0" by simp
    with b in0 um0 show "base = inputs (steps ch ! i)"
      by (cases rv) (simp_all add: stepInputsFor_def stepInputsLater_def stepInputsEarlier_def Let_def)
  qed
  have full: "0 < i \<and> inputs (steps ch ! i) ''competitor_input'' = None
               \<and> inputs (steps ch ! i) ''current_de_op_input'' = None
               \<and> inputs (steps ch ! i) ''second_input'' = None
             \<longrightarrow> base = inputs (steps ch ! i) ++ orEmpty (outputs (steps ch ! (i - 1)))"
  proof
    assume a: "0 < i \<and> inputs (steps ch ! i) ''competitor_input'' = None
               \<and> inputs (steps ch ! i) ''current_de_op_input'' = None
               \<and> inputs (steps ch ! i) ''second_input'' = None"
    then have "0 < i" by simp
    then have "i - 1 < currentStepIndex ch" "i - 1 \<noteq> i" using assms(3) by simp_all
    with chainInv_outputs [OF inv, of "i - 1"] obtain po where
      po: "outputs (steps ch ! (i - 1)) = Some po"
      by auto
    with \<open>i - 1 \<noteq> i\<close> assms(3) have po0: "outputs (steps ?chb ! (currentStepIndex ?chb - 1)) = Some po"
      by simp
    from a assms(3) have pos: "0 < currentStepIndex ?chb" by simp
    from stepInputsFor_full_merge [OF pos po0 _ _ _ b] a in0 um0 po
    show "base = inputs (steps ch ! i) ++ orEmpty (outputs (steps ch ! (i - 1)))"
      by simp
  qed
  from b e k1 k2 first full
  have "\<exists>base.
            stepInputsFor rv ?chb ?cb = Inr base
          \<and> inp = base ++ u
          \<and> (\<forall>K v. u K = Some v \<longrightarrow> inp K = Some v)
          \<and> (\<forall>k. u k = None \<longrightarrow> inp k = base k)
          \<and> (i = 0 \<longrightarrow> base = inputs (steps ch ! i))
          \<and> (0 < i \<and> inputs (steps ch ! i) ''competitor_input'' = None
               \<and> inputs (steps ch ! i) ''current_de_op_input'' = None
               \<and> inputs (steps ch ! i) ''second_input'' = None
             \<longrightarrow> base = inputs (steps ch ! i) ++ orEmpty (outputs (steps ch ! (i - 1))))"
    by blast
  with executeNextStep_runs [where m = m and cid = cid, OF assms(2,3,4,5,6), of parse remote]
  show ?thesis by (intro conjI)
qed

theorem user_modifications_override_witness:
  "reachable Later afterFirst
   \<and> afterFirst ''c2'' = Some afterFirstChain
   \<and> 1 = currentStepIndex afterFirstChain
   \<and> 1 < length (steps afterFirstChain)
   \<and> userEdit ''second_input'' = Some (JStr ''U'')
   \<and> orEmpty (outputs (steps afterFirstChain ! 0)) ''agent_output'' = Some (JStr ''X'')
   \<and> inputs (steps afterFirstChain ! 1) ''second_input'' = Some (JStr ''D'')
   \<and> stepInputsFor Later
        (afterFirstChain\<lparr> steps := (steps afterFirstChain)
            [1 := applyUserModifications (Some userEdit) (steps afterFirstChain ! 1)] \<rparr>)
        (applyUserModifications (Some userEdit) (steps afterFirstChain ! 1))
       = Inr [''extra'' \<mapsto> JStr ''d'', ''second_input'' \<mapsto> JStr ''U'']
   \<and> (\<exists>base.
         stepInputsFor Later
           (afterFirstChain\<lparr> steps := (steps afterFirstChain)
              [1 := (applyUserModifications (Some userEdit) (steps afterFirstChain ! 1))
                      \<lparr> userModifications := None \<rparr>] \<rparr>)
           ((applyUserModifications (Some userEdit) (steps afterFirstChain ! 1))
              \<lparr> userModifications := None \<rparr>) = Inr base
       \<and> base ''second_input'' = Some (JStr ''X'')
       \<and> [''extra'' \<mapsto> JStr ''d'', ''second_input'' \<mapsto> JStr ''U''] = base ++ userEdit)
   \<and> [''extra'' \<mapsto> JStr ''d'', ''second_input'' \<mapsto> JStr ''U''] ''second_input'' = Some (JStr ''U'')"
proof -
  let ?cs = "applyUserModifications (Some userEdit) (steps afterFirstChain ! 1)"
  let ?cb = "?cs\<lparr> userModifications := None \<rparr>"
  let ?inp = "[''extra'' \<mapsto> JStr ''d'', ''second_input'' \<mapsto> JStr ''U'']"
  have h1: "reachable Later afterFirst"
    unfolding afterFirst_def
    by (rule reachable.execute [OF reachable.create [OF reachable.initial]])
  have h2: "afterFirst ''c2'' = Some afterFirstChain"
    by (simp add: afterFirst_def afterFirstChain_def manager_defs analysisDef_def run_defs demo_defs)
  have h3: "1 = currentStepIndex afterFirstChain"
    and h4: "1 < length (steps afterFirstChain)"
    and h5: "userEdit ''second_input'' = Some (JStr ''U'')"
    and e1: "orEmpty (outputs (steps afterFirstChain ! 0)) ''agent_output'' = Some (JStr ''X'')"
    and e2: "inputs (steps afterFirstChain ! 1) ''second_input'' = Some (JStr ''D'')"
    by (simp_all add: afterFirstChain_def userEdit_def)
  have h6: "?cs = applyUserModifications (Some userEdit) (steps afterFirstChain ! 1)"
    by simp
  have h7: "stepInputsFor Later (afterFirstChain\<lparr> steps := (steps afterFirstChain)[1 := ?cs] \<rparr>) ?cs
      = Inr ?inp"
    by (simp add: afterFirstChain_def userEdit_def applyUserModifications_def stepInputsFor_def
        stepInputsLater_def mapSecondInput_def Let_def fun_upd_twist)
  have b: "stepInputsFor Later (afterFirstChain\<lparr> steps := (steps afterFirstChain)[1 := ?cb] \<rparr>) ?cb
      = Inr [''extra'' \<mapsto> JStr ''d'', ''second_input'' \<mapsto> JStr ''X'']"
    by (simp add: afterFirstChain_def userEdit_def applyUserModifications_def stepInputsFor_def
        stepInputsLater_def mapSecondInput_def Let_def fun_upd_twist)
  from user_modifications_override [where m = afterFirst and cid = "''c2''"
      and parse = demoParse and remote = "answering []", OF h1 h2 h3 h4 h6 h7]
  obtain base where
    b1: "stepInputsFor Later (afterFirstChain\<lparr> steps := (steps afterFirstChain)[1 := ?cb] \<rparr>) ?cb
           = Inr base"
    and b2: "?inp = base ++ userEdit"
    by blast
  from b b1 have "base = [''extra'' \<mapsto> JStr ''d'', ''second_input'' \<mapsto> JStr ''X'']"
    by simp
  then have b3: "base ''second_input'' = Some (JStr ''X'')"
    by simp
  from b1 b2 b3 have "\<exists>base.
         stepInputsFor Later (afterFirstChain\<lparr> steps := (steps afterFirstChain)[1 := ?cb] \<rparr>) ?cb
           = Inr base
       \<and> base ''second_input'' = Some (JStr ''X'')
       \<and> ?inp = base ++ userEdit"
    by blast
  then show ?thesis
    using h1 h2 h3 h4 h5 e1 e2 h7 by simp
qed

section \<open>The debug lines of the slot mapping\<close>

text \<open>
  In the later revision a truthy output field that is not a string makes the
  \<^verbatim>\<open>.substring(0, 100)\<close> of the debug line after its copy throw: the call is rejected before
  anything is sent, here for a numeric \<^verbatim>\<open>agent_output\<close> and a step that declares both
  named slots.
\<close>

lemma named_slot_debug_line_throws:
  "stepInputsLater (secondStepChain [''agent_output'' \<mapsto> JNum 42] slotDefaults None)
     (steps (secondStepChain [''agent_output'' \<mapsto> JNum 42] slotDefaults None) ! 1) =
   Inl (TypeError ''agent_output.substring is not a function'')"
  by (simp add: example_chain_defs stepInputsLater_def mapNamedSlots_def Let_def)

end
